theory Spec2Isabelle
  imports Main "HOL-Library.Multiset" "HOL-Library.Log_Nat"
begin

section \<open>Syntax trees\<close>

text \<open>
  The analysis in \<^verbatim>\<open>backend/main.py\<close> inspects a Python syntax tree through
  \<^verbatim>\<open>isinstance\<close> tests, the fields \<^verbatim>\<open>func\<close>, \<^verbatim>\<open>id\<close>, \<^verbatim>\<open>attr\<close>, \<^verbatim>\<open>op\<close>,
  \<^verbatim>\<open>name\<close>, \<^verbatim>\<open>lineno\<close>, \<^verbatim>\<open>end_lineno\<close>, and the two traversals
  \<^verbatim>\<open>ast.iter_child_nodes\<close> and \<^verbatim>\<open>ast.walk\<close>. A node is one of the kinds the code
  tests for, or \<open>Other\<close> (Module, If, Expr, Assign, Return, arguments, ClassDef,
  Lambda, AsyncFunctionDef, AsyncFor, ...), which only has children.

  Children are kept in field order. For \<open>FunctionDef\<close>, \<open>For\<close>, \<open>While\<close> and \<open>Other\<close>
  the child list is given as a whole; a \<open>Call\<close> has its callee \<^verbatim>\<open>func\<close> followed by its
  argument and keyword nodes; an \<open>Attribute\<close> has the receiver \<^verbatim>\<open>value\<close>; an
  \<open>AugAssign\<close> has \<^verbatim>\<open>target\<close> and \<^verbatim>\<open>value\<close>. The operator of an \<open>AugAssign\<close> is a tag.
  The field-less singleton nodes of CPython (\<^verbatim>\<open>Load\<close>, \<^verbatim>\<open>Store\<close>, \<^verbatim>\<open>Add\<close>, ...) are
  left out of the child lists: they have no children and no test of the analysis
  matches them.
\<close>

datatype operator = Add | Sub | Mult | OtherOp

datatype node =
    FunctionDef string int int "node list"
  | For "node list"
  | While "node list"
  | Call node "node list"
  | Name string
  | Attribute node string
  | AugAssign node operator node
  | Other "node list"

fun iter_child_nodes :: "node \<Rightarrow> node list" where
  "iter_child_nodes (FunctionDef nm lineno end_lineno cs) = cs"
| "iter_child_nodes (For cs) = cs"
| "iter_child_nodes (While cs) = cs"
| "iter_child_nodes (Call f as) = f # as"
| "iter_child_nodes (Name i) = []"
| "iter_child_nodes (Attribute v a) = [v]"
| "iter_child_nodes (AugAssign t oper v) = [t, v]"
| "iter_child_nodes (Other cs) = cs"

text \<open>The number of nodes of a tree, the measure for every traversal below.\<close>

fun node_count :: "node \<Rightarrow> nat" where
  "node_count (FunctionDef nm lineno end_lineno cs) = Suc (sum_list (map node_count cs))"
| "node_count (For cs) = Suc (sum_list (map node_count cs))"
| "node_count (While cs) = Suc (sum_list (map node_count cs))"
| "node_count (Call f as) = Suc (node_count f + sum_list (map node_count as))"
| "node_count (Name i) = 1"
| "node_count (Attribute v a) = Suc (node_count v)"
| "node_count (AugAssign t oper v) = Suc (node_count t + node_count v)"
| "node_count (Other cs) = Suc (sum_list (map node_count cs))"

lemma node_count_children:
  "node_count n = Suc (sum_list (map node_count (iter_child_nodes n)))"
  by (cases n) simp_all

lemma node_count_child:
  "c \<in> set (iter_child_nodes n) \<Longrightarrow> node_count c < node_count n"
  using member_le_sum_list [of "node_count c" "map node_count (iter_child_nodes n)"]
  by (simp add: node_count_children less_Suc_eq_le)

text \<open>
  \<^verbatim>\<open>ast.walk(node)\<close> keeps a queue, starting with \<^verbatim>\<open>[node]\<close>; it pops the first
  node, appends that node's children at the end of the queue and yields the node, until
  the queue is empty. \<open>walk_queue\<close> is that loop on the queue.
\<close>

function walk_queue :: "node list \<Rightarrow> node list" where
  "walk_queue [] = []"
| "walk_queue (n # todo) = n # walk_queue (todo @ iter_child_nodes n)"
  by pat_completeness auto
termination
  by (relation "measure (\<lambda>q. sum_list (map node_count q))")
    (simp_all add: node_count_children)

definition walk :: "node \<Rightarrow> node list" where
  "walk n = walk_queue [n]"

section \<open>The detectors\<close>

datatype error = AttributeError | ZeroDivisionError

text \<open>\<^verbatim>\<open>isinstance(node, (ast.For, ast.While))\<close>\<close>

fun is_loop :: "node \<Rightarrow> bool" where
  "is_loop (For cs) = True"
| "is_loop (While cs) = True"
| "is_loop n = False"

text \<open>
  \<^verbatim>\<open>get_max_loop_depth\<close>: the inner function \<^verbatim>\<open>visit(node, depth)\<close> updates the
  \<^verbatim>\<open>nonlocal max_depth\<close>; here it takes the current \<open>max_depth\<close> and returns the
  updated one. The loop over the children threads it from child to child, while
  \<open>depth\<close> is passed to each child by value.
\<close>

function visit :: "node \<Rightarrow> int \<Rightarrow> int \<Rightarrow> int" where
  "visit node depth max_depth =
     fold (\<lambda>child m. visit child (if is_loop node then depth + 1 else depth) m)
       (iter_child_nodes node)
       (if is_loop node then max max_depth (depth + 1) else max_depth)"
  by pat_completeness auto
termination
  by (relation "measure (\<lambda>(n, d, m). node_count n)") (simp_all add: node_count_child)

declare visit.simps [simp del]

definition get_max_loop_depth :: "node \<Rightarrow> int" where
  "get_max_loop_depth func_node = visit func_node 0 0"

text \<open>
  \<^verbatim>\<open>func_node.name\<close>: only a \<open>FunctionDef\<close> of this model has a name; on any other
  node the attribute access raises.
\<close>

fun func_name :: "node \<Rightarrow> error + string" where
  "func_name (FunctionDef nm lineno end_lineno cs) = Inr nm"
| "func_name n = Inl AttributeError"

text \<open>
  \<^verbatim>\<open>is_recursive\<close>: the loop over \<^verbatim>\<open>ast.walk(func_node)\<close>, returning at the first
  call of a bare identifier equal to the function's name.
\<close>

fun is_recursive_loop :: "node \<Rightarrow> node list \<Rightarrow> error + bool" where
  "is_recursive_loop func_node [] = Inr False"
| "is_recursive_loop func_node (node # rest) =
     (case node of
        Call (Name i) as \<Rightarrow>
          (case func_name func_node of
             Inl e \<Rightarrow> Inl e
           | Inr nm \<Rightarrow> if i = nm then Inr True else is_recursive_loop func_node rest)
      | _ \<Rightarrow> is_recursive_loop func_node rest)"

definition is_recursive :: "node \<Rightarrow> error + bool" where
  "is_recursive func_node = is_recursive_loop func_node (walk func_node)"

definition EXPENSIVE_FUNCS :: "string set" where
  "EXPENSIVE_FUNCS = {''sorted'', ''open'', ''print''}"

text \<open>
  \<^verbatim>\<open>list(set(found))\<close>: the distinct elements of \<open>found\<close>. Python fixes no order
  for the elements of a set of strings, so every theorem below speaks about the
  elements and the length of such a list only, never about the position of an element.
\<close>

definition list_set :: "string list \<Rightarrow> string list" where
  "list_set found = remdups found"

text \<open>The body of the loop of \<^verbatim>\<open>detect_expensive_calls\<close>, on the list \<open>found\<close>.\<close>

definition expensive_step :: "node \<Rightarrow> string list \<Rightarrow> string list" where
  "expensive_step node found =
     (case node of
        Call f as \<Rightarrow>
          (let found1 = (case f of
                           Name i \<Rightarrow> if i \<in> EXPENSIVE_FUNCS then found @ [i] else found
                         | _ \<Rightarrow> found)
           in (case f of
                 Attribute v a \<Rightarrow> if a = ''sort'' then found1 @ [''sort()''] else found1
               | _ \<Rightarrow> found1))
      | _ \<Rightarrow> found)"

definition detect_expensive_calls :: "node \<Rightarrow> string list" where
  "detect_expensive_calls func_node = list_set (fold expensive_step (walk func_node) [])"

text \<open>
  \<^verbatim>\<open>detect_loop_issues\<close>: \<open>issue_step\<close> is the body of the inner loop over
  \<^verbatim>\<open>ast.walk(node)\<close>, \<open>loop_step\<close> the body of the outer loop over
  \<^verbatim>\<open>ast.walk(func_node)\<close>.
\<close>

definition issue_step :: "node \<Rightarrow> string list \<Rightarrow> string list" where
  "issue_step child issues =
     (let issues1 = (case child of
                       AugAssign t oper v \<Rightarrow>
                         if oper = Add then issues @ [''string concatenation in loop (+=)'']
                         else issues
                     | _ \<Rightarrow> issues)
      in (case child of
            Call (Attribute v a) as \<Rightarrow>
              if a = ''append'' then issues1 @ [''list append in loop (.append)'']
              else issues1
          | _ \<Rightarrow> issues1))"

definition loop_step :: "node \<Rightarrow> string list \<Rightarrow> string list" where
  "loop_step node issues =
     (if is_loop node then fold issue_step (walk node) issues else issues)"

definition detect_loop_issues :: "node \<Rightarrow> string list" where
  "detect_loop_issues func_node = list_set (fold loop_step (walk func_node) [])"

section \<open>Strings and slices of the Python library\<close>

text \<open>\<^verbatim>\<open>str(n)\<close> of an integer, as the f-strings of \<^verbatim>\<open>analyze\<close> render it.\<close>

function str_nat :: "nat \<Rightarrow> string" where
  "str_nat n =
     (if n < 10 then [''0123456789'' ! n]
      else str_nat (n div 10) @ [''0123456789'' ! (n mod 10)])"
  by pat_completeness auto
termination
  by (relation "measure id") simp_all

declare str_nat.simps [simp del]

definition str_int :: "int \<Rightarrow> string" where
  "str_int i = (if i < 0 then ''-'' @ str_nat (nat (- i)) else str_nat (nat i))"

text \<open>\<^verbatim>\<open>sep.join(xs)\<close>\<close>

fun join :: "string \<Rightarrow> string list \<Rightarrow> string" where
  "join sep [] = []"
| "join sep [x] = x"
| "join sep (x # y # ys) = x @ sep @ join sep (y # ys)"

text \<open>
  \<^verbatim>\<open>xs[i:j]\<close>: a negative bound counts from the end, and both bounds are clipped to
  the list.
\<close>

definition py_slice :: "'a list \<Rightarrow> int \<Rightarrow> int \<Rightarrow> 'a list" where
  "py_slice xs i j =
     (let n = int (length xs);
          lo = (if i < 0 then max (i + n) 0 else min i n);
          hi = (if j < 0 then max (j + n) 0 else min j n)
      in take (nat (hi - lo)) (drop (nat lo) xs))"

section \<open>Floating-point numbers\<close>

text \<open>
  A Python \<^verbatim>\<open>float\<close> is an IEEE 754 binary64 number. A finite float is represented
  here by the rational number it stands for, and every operation rounds its exact result
  to the nearest binary64 number, ties to the even significand, as the hardware does.
  The model covers the normal and subnormal range; it has no infinities, so it is
  faithful as long as no result reaches \<open>2 ^ 1024\<close>, which holds for every value of
  the analysis (none exceeds 3600000).
\<close>

text \<open>The nearest integer, ties to the even one.\<close>

definition round_half_even :: "rat \<Rightarrow> int" where
  "round_half_even x =
     (let f = \<lfloor>x\<rfloor>; r = x - of_int f
      in if r < 1 / 2 then f else if 1 / 2 < r then f + 1 else if even f then f else f + 1)"

text \<open>For \<open>x > 0\<close>, the integer \<open>e\<close> with \<open>2 ^ e \<le> x < 2 ^ (e + 1)\<close>.\<close>

definition ilog2 :: "rat \<Rightarrow> int" where
  "ilog2 x = (case quotient_of x of (p, q) \<Rightarrow>
                let k = bitlen p - bitlen q in if 2 powi k \<le> x then k else k - 1)"

text \<open>
  The exponent of the last place of the binary64 numbers around \<open>x\<close>: 53 significant
  bits for a normal number, and the fixed spacing \<open>2 ^ - 1074\<close> for a subnormal one.
\<close>

definition exponent :: "rat \<Rightarrow> int" where
  "exponent x = max (ilog2 \<bar>x\<bar>) (- 1022) - 52"

text \<open>Rounding to binary64.\<close>

definition fl :: "rat \<Rightarrow> rat" where
  "fl x = (if x = 0 then 0
           else sgn x * of_int (round_half_even (\<bar>x\<bar> / 2 powi exponent x))
                  * 2 powi exponent x)"

text \<open>
  The conversion of an \<^verbatim>\<open>int\<close> operand to \<^verbatim>\<open>float\<close>, the product and the quotient
  of two floats (the quotient by zero raises), and \<^verbatim>\<open>round(x, ndigits)\<close>, which
  rounds the exact value of \<open>x\<close> to \<open>ndigits\<close> decimal places, ties to the even
  digit, and returns the float nearest to that decimal number.
\<close>

definition float_of_int :: "int \<Rightarrow> rat" where
  "float_of_int n = fl (of_int n)"

definition float_mul :: "rat \<Rightarrow> rat \<Rightarrow> rat" where
  "float_mul a b = fl (a * b)"

definition float_truediv :: "rat \<Rightarrow> rat \<Rightarrow> error + rat" where
  "float_truediv a b = (if b = 0 then Inl ZeroDivisionError else Inr (fl (a / b)))"

definition py_round :: "rat \<Rightarrow> nat \<Rightarrow> rat" where
  "py_round x ndigits = fl (of_int (round_half_even (x * 10 ^ ndigits)) / 10 ^ ndigits)"

section \<open>The analysis\<close>

text \<open>
  The constants of lines 88 and 89: the literals \<^verbatim>\<open>8.0\<close> and \<^verbatim>\<open>0.05\<close>, each the
  float nearest to the decimal number written.
\<close>

definition ELECTRICITY_RATE_PER_KWH :: rat where
  "ELECTRICITY_RATE_PER_KWH = fl 8"

definition JOULES_PER_SCORE_POINT :: rat where
  "JOULES_PER_SCORE_POINT = fl (5 / 100)"

text \<open>
  The energy estimation (lines 179 to 187). \<open>cost_per_run\<close> is the local variable
  \<^verbatim>\<open>estimated_cost_per_run\<close>, which the hotspot record does not keep.
\<close>

record energy =
  joules_per_run :: rat
  cost_per_run :: rat
  cost_per_1000_runs :: rat
  cost_per_1m_runs :: rat

definition estimate_energy :: "int \<Rightarrow> error + energy" where
  "estimate_energy score =
     (let estimated_joules_per_run =
            py_round (float_mul (float_of_int score) JOULES_PER_SCORE_POINT) 4
      in case float_truediv estimated_joules_per_run (float_of_int 3600000) of
           Inl e \<Rightarrow> Inl e
         | Inr q \<Rightarrow>
             (let estimated_cost_per_run = float_mul q ELECTRICITY_RATE_PER_KWH;
                  estimated_cost_per_1000_runs =
                    py_round (float_mul estimated_cost_per_run (float_of_int 1000)) 6;
                  estimated_cost_per_1m_runs =
                    py_round (float_mul estimated_cost_per_run (float_of_int 1000000)) 4
              in Inr \<lparr>joules_per_run = estimated_joules_per_run,
                      cost_per_run = estimated_cost_per_run,
                      cost_per_1000_runs = estimated_cost_per_1000_runs,
                      cost_per_1m_runs = estimated_cost_per_1m_runs\<rparr>))"

record AnalyzeRequest =
  code :: string
  filename :: "string option"

record hotspot =
  name :: string
  score :: int
  category :: string
  reasons :: "string list"
  start_line :: int
  end_line :: int
  code_snippet :: string
  estimated_joules_per_run :: rat
  estimated_cost_per_1000_runs :: rat
  estimated_cost_per_1m_runs :: rat

record summary =
  summary_filename :: "string option"
  language :: string
  function_count :: int
  hotspot_count :: int
  electricity_rate_per_kwh :: "rat option"
  summary_note :: string

record response =
  summary :: summary
  hotspots :: "hotspot list"
  error :: "string option"

text \<open>
  The failure results have no \<^verbatim>\<open>electricity_rate_per_kwh\<close> key in their summary; the
  field is \<open>None\<close> there.
\<close>

text \<open>
  What \<^verbatim>\<open>ast.parse(req.code)\<close> does: it returns a tree, raises \<^verbatim>\<open>SyntaxError\<close> with
  its \<^verbatim>\<open>lineno\<close> (an integer or \<^verbatim>\<open>None\<close>) and \<^verbatim>\<open>msg\<close>, or raises another
  \<^verbatim>\<open>Exception\<close> \<open>e\<close>, of which the code uses \<^verbatim>\<open>str(e)\<close>. The parser itself and
  \<^verbatim>\<open>str.splitlines\<close> are library functions; \<open>analyze\<close> takes them as parameters.
\<close>

datatype parse_outcome =
    Parsed node
  | SyntaxError "int option" string
  | OtherException string

definition NOTE :: string where
  "NOTE = ''Energy and cost are heuristic estimates from static analysis (not hardware power counters).''"

text \<open>\<^verbatim>\<open>isinstance(node, ast.FunctionDef)\<close>\<close>

fun is_FunctionDef :: "node \<Rightarrow> bool" where
  "is_FunctionDef (FunctionDef nm lineno end_lineno cs) = True"
| "is_FunctionDef n = False"

text \<open>The list comprehension over \<^verbatim>\<open>ast.walk(tree)\<close> (lines 120 to 123).\<close>

definition function_nodes :: "node \<Rightarrow> node list" where
  "function_nodes tree = filter is_FunctionDef (walk tree)"

text \<open>\<^verbatim>\<open>getattr(func, "lineno", 1)\<close> and \<^verbatim>\<open>getattr(func, "end_lineno", start_line)\<close>\<close>

fun get_lineno :: "node \<Rightarrow> int \<Rightarrow> int" where
  "get_lineno (FunctionDef nm lineno end_lineno cs) d = lineno"
| "get_lineno n d = d"

fun get_end_lineno :: "node \<Rightarrow> int \<Rightarrow> int" where
  "get_end_lineno (FunctionDef nm lineno end_lineno cs) d = end_lineno"
| "get_end_lineno n d = d"

text \<open>The score (lines 145 to 150).\<close>

definition compute_score :: "int \<Rightarrow> bool \<Rightarrow> string list \<Rightarrow> string list \<Rightarrow> int" where
  "compute_score loop_depth recursive expensive_calls loop_issues =
     (let score0 = loop_depth * 12;
          score1 = (if recursive then score0 + 20 else score0);
          score2 = score1 + int (length expensive_calls) * 15;
          score3 = score2 + int (length loop_issues) * 10
      in min score3 100)"

text \<open>The reasons (lines 153 to 165).\<close>

definition build_reasons :: "int \<Rightarrow> bool \<Rightarrow> string list \<Rightarrow> string list \<Rightarrow> string list" where
  "build_reasons loop_depth recursive expensive_calls loop_issues =
     (let reasons0 = [];
          reasons1 = (if loop_depth > 0
                      then reasons0 @ [''Loop nesting depth = '' @ str_int loop_depth]
                      else reasons0);
          reasons2 = (if recursive then reasons1 @ [''Recursion detected''] else reasons1);
          reasons3 = (if expensive_calls \<noteq> []
                      then reasons2 @ [''Expensive calls: '' @ join '', '' expensive_calls]
                      else reasons2)
      in reasons3 @ loop_issues)"

text \<open>The category (lines 171 to 176).\<close>

definition categorize :: "int \<Rightarrow> bool \<Rightarrow> string list \<Rightarrow> string" where
  "categorize loop_depth recursive expensive_calls =
     (if ''open'' \<in> set expensive_calls then ''I/O''
      else if loop_depth \<ge> 2 \<or> recursive \<or> ''sorted'' \<in> set expensive_calls
              \<or> ''sort()'' \<in> set expensive_calls then ''CPU''
      else ''CPU'')"

text \<open>
  The body of the loop over \<^verbatim>\<open>function_nodes\<close> (lines 129 to 200): the record
  appended to \<^verbatim>\<open>hotspots\<close> for one function, or the exception raised on the way.
\<close>

definition analyze_function :: "string list \<Rightarrow> node \<Rightarrow> error + hotspot" where
  "analyze_function code_lines func =
     (let loop_depth = get_max_loop_depth func in
      case is_recursive func of
        Inl e \<Rightarrow> Inl e
      | Inr recursive \<Rightarrow>
          (let expensive_calls = detect_expensive_calls func;
               loop_issues = detect_loop_issues func;
               start_line = get_lineno func 1;
               end_line = get_end_lineno func start_line;
               code_snippet = join [CHR 0x0A] (py_slice code_lines (start_line - 1) end_line);
               score = compute_score loop_depth recursive expensive_calls loop_issues;
               reasons = build_reasons loop_depth recursive expensive_calls loop_issues;
               category = categorize loop_depth recursive expensive_calls
           in case estimate_energy score of
                Inl e \<Rightarrow> Inl e
              | Inr en \<Rightarrow>
                  (case func_name func of
                     Inl e \<Rightarrow> Inl e
                   | Inr nm \<Rightarrow>
                       Inr \<lparr>name = nm, score = score, category = category,
                            reasons = reasons, start_line = start_line, end_line = end_line,
                            code_snippet = code_snippet,
                            estimated_joules_per_run = joules_per_run en,
                            estimated_cost_per_1000_runs = cost_per_1000_runs en,
                            estimated_cost_per_1m_runs = cost_per_1m_runs en\<rparr>)))"

fun analyze_loop :: "string list \<Rightarrow> node list \<Rightarrow> hotspot list \<Rightarrow> error + hotspot list" where
  "analyze_loop code_lines [] hs = Inr hs"
| "analyze_loop code_lines (func # rest) hs =
     (case analyze_function code_lines func of
        Inl e \<Rightarrow> Inl e
      | Inr h \<Rightarrow> analyze_loop code_lines rest (hs @ [h]))"

text \<open>
  \<^verbatim>\<open>hotspots.sort(key=lambda x: x["score"], reverse=True)\<close>. Python's sort is
  stable, also with \<^verbatim>\<open>reverse=True\<close>: it reverses the list, sorts it stably by
  ascending key and reverses the result.
\<close>

definition sort_reverse :: "hotspot list \<Rightarrow> hotspot list" where
  "sort_reverse hs = rev (sort_key score (rev hs))"

definition failure_summary :: "AnalyzeRequest \<Rightarrow> summary" where
  "failure_summary req =
     \<lparr>summary_filename = filename req, language = ''python'',
      function_count = 0, hotspot_count = 0, electricity_rate_per_kwh = None,
      summary_note = NOTE\<rparr>"

definition str_lineno :: "int option \<Rightarrow> string" where
  "str_lineno l = (case l of None \<Rightarrow> ''None'' | Some n \<Rightarrow> str_int n)"

definition analyze ::
  "(string \<Rightarrow> parse_outcome) \<Rightarrow> (string \<Rightarrow> string list) \<Rightarrow> AnalyzeRequest \<Rightarrow> error + response" where
  "analyze ast_parse splitlines req =
     (case ast_parse (code req) of
        SyntaxError lineno msg \<Rightarrow>
          Inr \<lparr>summary = failure_summary req, hotspots = [],
               error = Some (''SyntaxError at line '' @ str_lineno lineno @ '': '' @ msg)\<rparr>
      | OtherException msg \<Rightarrow>
          Inr \<lparr>summary = failure_summary req, hotspots = [],
               error = Some (''Invalid Python code: '' @ msg)\<rparr>
      | Parsed tree \<Rightarrow>
          (let fns = function_nodes tree;
               code_lines = splitlines (code req)
           in case analyze_loop code_lines fns [] of
                Inl e \<Rightarrow> Inl e
              | Inr hs \<Rightarrow>
                  (let sorted_hs = sort_reverse hs
                   in Inr \<lparr>summary =
                             \<lparr>summary_filename = filename req, language = ''python'',
                              function_count = int (length fns),
                              hotspot_count = int (length sorted_hs),
                              electricity_rate_per_kwh = Some ELECTRICITY_RATE_PER_KWH,
                              summary_note = NOTE\<rparr>,
                           hotspots = sorted_hs, error = None\<rparr>)))"

section \<open>Reference notions for the statements\<close>

text \<open>
  The nodes of a tree, the root first and then the subtrees of its children from left to
  right (depth-first pre-order). \<open>set (preorder n)\<close> is \<open>n\<close> with all its descendants.
\<close>

function preorder :: "node \<Rightarrow> node list" where
  "preorder n = n # concat (map preorder (iter_child_nodes n))"
  by pat_completeness auto
termination
  by (relation "measure node_count") (simp_all add: node_count_child)

declare preorder.simps [simp del]

text \<open>
  The nodes of a forest level by level (breadth-first): the roots from left to right,
  then all their children from left to right, and so on.
\<close>

lemma node_count_concat_children:
  "sum_list (map node_count (concat (map iter_child_nodes ns))) + length ns
     = sum_list (map node_count ns)"
proof (induction ns)
  case Nil
  then show ?case by simp
next
  case (Cons n ns)
  then show ?case using node_count_children [of n] by simp
qed

function levels :: "node list \<Rightarrow> node list" where
  "levels [] = []"
| "levels (n # ns) = (n # ns) @ levels (concat (map iter_child_nodes (n # ns)))"
  by pat_completeness auto
termination
proof (relation "measure (\<lambda>q. sum_list (map node_count q))")
  show "wf (measure (\<lambda>q. sum_list (map node_count q)))" by simp
next
  fix n :: node and ns :: "node list"
  show "(concat (map iter_child_nodes (n # ns)), n # ns)
          \<in> measure (\<lambda>q. sum_list (map node_count q))"
    using node_count_concat_children [of "n # ns"] by simp
qed

declare levels.simps(2) [simp del]

definition level_order :: "node \<Rightarrow> node list" where
  "level_order n = levels [n]"

text \<open>
  For every node of a tree, in pre-order, the number of \<open>For\<close> and \<open>While\<close> nodes on
  the path from the root to that node (the node included), added to \<open>d\<close>.
\<close>

function loop_counts :: "int \<Rightarrow> node \<Rightarrow> int list" where
  "loop_counts d n =
     (d + (if is_loop n then 1 else 0))
       # concat (map (loop_counts (d + (if is_loop n then 1 else 0))) (iter_child_nodes n))"
  by pat_completeness auto
termination
  by (relation "measure (\<lambda>(d, n). node_count n)") (simp_all add: node_count_child)

declare loop_counts.simps [simp del]

text \<open>The energy figures of a score, as the estimation computes them when it succeeds.\<close>

definition energy_of :: "int \<Rightarrow> energy" where
  "energy_of s =
     (let j = py_round (float_mul (float_of_int s) JOULES_PER_SCORE_POINT) 4;
          c = float_mul (fl (j / float_of_int 3600000)) ELECTRICITY_RATE_PER_KWH
      in \<lparr>joules_per_run = j, cost_per_run = c,
          cost_per_1000_runs = py_round (float_mul c (float_of_int 1000)) 6,
          cost_per_1m_runs = py_round (float_mul c (float_of_int 1000000)) 4\<rparr>)"

text \<open>A call of the bare identifier \<open>nm\<close>.\<close>

fun calls_name :: "string \<Rightarrow> node \<Rightarrow> bool" where
  "calls_name nm (Call (Name i) as) = (i = nm)"
| "calls_name nm n = False"

section \<open>Example programs\<close>

text \<open>
  \<^verbatim>\<open>def noop():\<close>
  \<^verbatim>\<open>    pass\<close>
\<close>

definition noop :: node where
  "noop = FunctionDef ''noop'' 1 2 [Other [], Other []]"

text \<open>
  \<^verbatim>\<open>def collect(xs):\<close>
  \<^verbatim>\<open>    out = []\<close>
  \<^verbatim>\<open>    for x in xs:\<close>
  \<^verbatim>\<open>        for y in x:\<close>
  \<^verbatim>\<open>            out.append(y)\<close>
  \<^verbatim>\<open>    return out\<close>
\<close>

definition collect :: node where
  "collect =
     FunctionDef ''collect'' 1 6
       [Other [Other []],
        Other [Name ''out'', Other []],
        For [Name ''x'', Name ''xs'',
          For [Name ''y'', Name ''x'',
            Other [Call (Attribute (Name ''out'') ''append'') [Name ''y'']]]],
        Other [Name ''out'']]"

text \<open>
  \<^verbatim>\<open>def fact(n):\<close>
  \<^verbatim>\<open>    return fact(n - 1)\<close>
\<close>

definition fact :: node where
  "fact =
     FunctionDef ''fact'' 1 2
       [Other [Other []],
        Other [Call (Name ''fact'') [Other [Name ''n'', Other []]]]]"

text \<open>
  \<^verbatim>\<open>def f(obj):\<close>
  \<^verbatim>\<open>    return obj.f(1)\<close>
\<close>

definition method_call :: node where
  "method_call =
     FunctionDef ''f'' 1 2
       [Other [Other []],
        Other [Call (Attribute (Name ''obj'') ''f'') [Other []]]]"

text \<open>
  \<^verbatim>\<open>def both(a, b):\<close>
  \<^verbatim>\<open>    x = sorted(a)\<close>
  \<^verbatim>\<open>    y = sorted(b)\<close>
  \<^verbatim>\<open>    return x, y\<close>
\<close>

definition sorted_twice :: node where
  "sorted_twice =
     FunctionDef ''both'' 1 4
       [Other [Other [], Other []],
        Other [Name ''x'', Call (Name ''sorted'') [Name ''a'']],
        Other [Name ''y'', Call (Name ''sorted'') [Name ''b'']],
        Other [Other [Name ''x'', Name ''y'']]]"

text \<open>
  \<^verbatim>\<open>def spin(a, b, c):\<close>
  \<^verbatim>\<open>    while a:\<close>
  \<^verbatim>\<open>        while b:\<close>
  \<^verbatim>\<open>            while c:\<close>
  \<^verbatim>\<open>                pass\<close>
\<close>

definition three_whiles :: node where
  "three_whiles =
     FunctionDef ''spin'' 1 5
       [Other [Other [], Other [], Other []],
        While [Name ''a'', While [Name ''b'', While [Name ''c'', Other []]]]]"

text \<open>
  \<^verbatim>\<open>    def inner(xs):\<close>
  \<^verbatim>\<open>        for x in xs:\<close>
  \<^verbatim>\<open>            pass\<close>
  which is the second statement of
  \<^verbatim>\<open>def outer():\<close>
  \<^verbatim>\<open>    def inner(xs):\<close>
  \<^verbatim>\<open>        for x in xs:\<close>
  \<^verbatim>\<open>            pass\<close>
  \<^verbatim>\<open>    return inner\<close>
\<close>

definition inner_def :: node where
  "inner_def =
     FunctionDef ''inner'' 2 4 [Other [Other []], For [Name ''x'', Name ''xs'', Other []]]"

definition outer_def :: node where
  "outer_def = FunctionDef ''outer'' 1 5 [Other [], inner_def, Other [Name ''inner'']]"

text \<open>
  The module
  \<^verbatim>\<open>def outer():\<close>
  \<^verbatim>\<open>    def inner(xs):\<close>
  \<^verbatim>\<open>        for x in xs:\<close>
  \<^verbatim>\<open>            pass\<close>
  \<^verbatim>\<open>    return inner\<close>
  \<^verbatim>\<open>def noop():\<close>
  \<^verbatim>\<open>    pass\<close>
\<close>

definition outer_noop_module :: node where
  "outer_noop_module = Other [outer_def, FunctionDef ''noop'' 6 7 [Other [], Other []]]"

text \<open>
  The module
  \<^verbatim>\<open>def a(xs):\<close>
  \<^verbatim>\<open>    for x in xs:\<close>
  \<^verbatim>\<open>        pass\<close>
  \<^verbatim>\<open>def b(xs):\<close>
  \<^verbatim>\<open>    for x in xs:\<close>
  \<^verbatim>\<open>        for y in x:\<close>
  \<^verbatim>\<open>            pass\<close>
  \<^verbatim>\<open>def c(n):\<close>
  \<^verbatim>\<open>    while n:\<close>
  \<^verbatim>\<open>        pass\<close>
  whose functions have the scores 12, 24 and 12.
\<close>

definition three_functions :: node where
  "three_functions =
     Other
       [FunctionDef ''a'' 1 3 [Other [Other []], For [Name ''x'', Name ''xs'', Other []]],
        FunctionDef ''b'' 4 7
          [Other [Other []], For [Name ''x'', Name ''xs'', For [Name ''y'', Name ''x'', Other []]]],
        FunctionDef ''c'' 8 10 [Other [Other []], While [Name ''n'', Other []]]]"

text \<open>
  \<^verbatim>\<open>def load(path):\<close>
  \<^verbatim>\<open>    return open(path)\<close>
\<close>

definition load_def :: node where
  "load_def =
     FunctionDef ''load'' 1 2 [Other [Other []], Other [Call (Name ''open'') [Name ''path'']]]"

section \<open>Facts about the traversals and detectors\<close>

lemma fold_ge:
  fixes f :: "'a \<Rightarrow> int \<Rightarrow> int"
  assumes "\<And>c m. c \<in> set cs \<Longrightarrow> m \<le> f c m"
  shows "m \<le> fold f cs m"
  using assms
proof (induction cs arbitrary: m)
  case Nil
  then show ?case by simp
next
  case (Cons c cs)
  have "m \<le> f c m" using Cons.prems by simp
  also have "f c m \<le> fold f cs (f c m)" using Cons by simp
  finally show ?case by simp
qed

lemma visit_ge: "max_depth \<le> visit node depth max_depth"
proof (induction node depth max_depth rule: visit.induct)
  case (1 node depth max_depth)
  let ?d = "if is_loop node then depth + 1 else depth"
  let ?m = "if is_loop node then max max_depth (depth + 1) else max_depth"
  have "?m \<le> fold (\<lambda>child m. visit child ?d m) (iter_child_nodes node) ?m"
    by (rule fold_ge) (rule 1)
  moreover have "max_depth \<le> ?m" by simp
  ultimately show ?case
    by (subst visit.simps) (rule order_trans)
qed

lemma get_max_loop_depth_nonneg: "0 \<le> get_max_loop_depth func_node"
  unfolding get_max_loop_depth_def by (rule visit_ge)

lemma is_recursive_loop_FunctionDef:
  "is_recursive_loop (FunctionDef nm lineno end_lineno cs) ns = Inr (list_ex (calls_name nm) ns)"
proof (induction ns)
  case Nil
  then show ?case by simp
next
  case (Cons n ns)
  show ?case
  proof (cases n)
    case (Call f as)
    then show ?thesis using Cons by (cases f) auto
  qed (use Cons in simp_all)
qed

lemma is_recursive_FunctionDef:
  "is_recursive (FunctionDef nm lineno end_lineno cs) =
     Inr (list_ex (calls_name nm) (walk (FunctionDef nm lineno end_lineno cs)))"
  by (simp add: is_recursive_def is_recursive_loop_FunctionDef)

lemma compute_score_eq:
  "compute_score d r e l =
     min 100 (d * 12 + (if r then 20 else 0) + 15 * int (length e) + 10 * int (length l))"
  by (simp add: compute_score_def Let_def min.commute mult.commute)

lemma compute_score_mono:
  assumes "d \<le> d'" and "r \<longrightarrow> r'" and "length e \<le> length e'" and "length l \<le> length l'"
  shows "compute_score d r e l \<le> compute_score d' r' e' l'"
  using assms by (auto simp: compute_score_eq)

lemma float_of_int_3600000: "float_of_int 3600000 = 3600000"
  by code_simp

lemma estimate_energy_Inr: "estimate_energy s = Inr (energy_of s)"
  by (simp add: estimate_energy_def energy_of_def float_truediv_def float_of_int_3600000 Let_def)

lemma analyze_function_FunctionDef:
  "analyze_function code_lines (FunctionDef nm lineno end_lineno cs) =
     (let func = FunctionDef nm lineno end_lineno cs;
          loop_depth = get_max_loop_depth func;
          recursive = list_ex (calls_name nm) (walk func);
          expensive_calls = detect_expensive_calls func;
          loop_issues = detect_loop_issues func;
          score = compute_score loop_depth recursive expensive_calls loop_issues
      in Inr \<lparr>name = nm,
              score = score,
              category = categorize loop_depth recursive expensive_calls,
              reasons = build_reasons loop_depth recursive expensive_calls loop_issues,
              start_line = lineno, end_line = end_lineno,
              code_snippet = join [CHR 0x0A] (py_slice code_lines (lineno - 1) end_lineno),
              estimated_joules_per_run = joules_per_run (energy_of score),
              estimated_cost_per_1000_runs = cost_per_1000_runs (energy_of score),
              estimated_cost_per_1m_runs = cost_per_1m_runs (energy_of score)\<rparr>)"
  by (simp add: analyze_function_def is_recursive_FunctionDef estimate_energy_Inr Let_def)

lemma categorize_eq:
  "categorize loop_depth recursive expensive_calls =
     (if ''open'' \<in> set expensive_calls then ''I/O'' else ''CPU'')"
  by (simp add: categorize_def)

lemma analyze_function_category:
  assumes "is_FunctionDef func"
  shows "map_sum id category (analyze_function code_lines func) =
           Inr (if ''open'' \<in> set (detect_expensive_calls func) then ''I/O'' else ''CPU'')"
proof -
  from assms obtain nm lineno end_lineno cs where f: "func = FunctionDef nm lineno end_lineno cs"
    by (cases func) simp_all
  show ?thesis
    unfolding f analyze_function_FunctionDef Let_def by (simp add: categorize_eq)
qed

lemma analyze_function_name_score:
  "map_sum id (\<lambda>h. (name h, score h))
       (analyze_function code_lines (FunctionDef nm lineno end_lineno cs)) =
     Inr (nm, compute_score (get_max_loop_depth (FunctionDef nm lineno end_lineno cs))
                (list_ex (calls_name nm) (walk (FunctionDef nm lineno end_lineno cs)))
                (detect_expensive_calls (FunctionDef nm lineno end_lineno cs))
                (detect_loop_issues (FunctionDef nm lineno end_lineno cs)))"
  unfolding analyze_function_FunctionDef Let_def by simp

lemma map_insort_key:
  "map g (insort_key (\<lambda>x. f (g x)) x xs) = insort_key f (g x) (map g xs)"
  by (induction xs) simp_all

lemma map_sort_key: "map g (sort_key (\<lambda>x. f (g x)) xs) = sort_key f (map g xs)"
  by (induction xs) (simp_all add: map_insort_key)

lemma walk_queue_append:
  "walk_queue (xs @ cs) = xs @ walk_queue (cs @ concat (map iter_child_nodes xs))"
proof (induction xs arbitrary: cs)
  case Nil
  then show ?case by simp
next
  case (Cons x xs)
  have "walk_queue ((x # xs) @ cs) = x # walk_queue (xs @ (cs @ iter_child_nodes x))"
    by simp
  also have "\<dots> = x # xs @ walk_queue ((cs @ iter_child_nodes x) @ concat (map iter_child_nodes xs))"
    by (simp only: Cons.IH)
  finally show ?case by simp
qed

lemma walk_queue_levels: "walk_queue q = levels q"
proof (induction q rule: levels.induct)
  case 1
  then show ?case by simp
next
  case (2 n ns)
  have "walk_queue (n # ns) = (n # ns) @ walk_queue (concat (map iter_child_nodes (n # ns)))"
    using walk_queue_append [of "n # ns" "[]"] by simp
  then show ?case using 2 by (simp only: levels.simps(2))
qed

lemma walk_level_order: "walk n = level_order n"
  by (simp add: walk_def level_order_def walk_queue_levels)

lemma mset_walk_queue: "mset (walk_queue q) = mset (concat (map preorder q))"
proof (induction q rule: walk_queue.induct)
  case 1
  then show ?case by simp
next
  case (2 n todo)
  have "mset (walk_queue (n # todo)) = {#n#} + mset (walk_queue (todo @ iter_child_nodes n))"
    by simp
  also have "\<dots> = {#n#} + mset (concat (map preorder (todo @ iter_child_nodes n)))"
    by (simp only: 2)
  also have "\<dots> = mset (n # concat (map preorder (iter_child_nodes n)))
                    + mset (concat (map preorder todo))"
    by simp
  also have "n # concat (map preorder (iter_child_nodes n)) = preorder n"
    by (rule preorder.simps [symmetric])
  also have "mset (preorder n) + mset (concat (map preorder todo))
               = mset (concat (map preorder (n # todo)))"
    by simp
  finally show ?case .
qed

lemma mset_walk: "mset (walk n) = mset (preorder n)"
  unfolding walk_def mset_walk_queue by simp

lemma set_walk: "set (walk n) = set (preorder n)"
  using mset_walk [of n] by (metis set_mset_mset)

lemma list_ex_calls_name:
  "list_ex (calls_name nm) ns = (\<exists>as. Call (Name nm) as \<in> set ns)"
proof -
  have "calls_name nm n = (\<exists>as. n = Call (Name nm) as)" for n
    by (cases "(nm, n)" rule: calls_name.cases) auto
  then show ?thesis by (auto simp: list_ex_iff)
qed

lemma fold_append_step:
  assumes "\<And>x acc. f x acc = acc @ f x []"
  shows "fold f xs acc = acc @ concat (map (\<lambda>x. f x []) xs)"
proof (induction xs arbitrary: acc)
  case Nil
  then show ?case by simp
next
  case (Cons x xs)
  have "fold f (x # xs) acc = fold f xs (f x acc)" by simp
  also have "\<dots> = f x acc @ concat (map (\<lambda>x. f x []) xs)" by (rule Cons.IH)
  also have "f x acc = acc @ f x []" by (rule assms)
  finally show ?case by simp
qed

lemma expensive_step_append: "expensive_step node found = found @ expensive_step node []"
proof (cases node)
  case (Call f as)
  then show ?thesis by (cases f) (simp_all add: expensive_step_def)
qed (simp_all add: expensive_step_def)

lemma set_expensive_step:
  "set (expensive_step node []) =
     {i. i \<in> EXPENSIVE_FUNCS \<and> (\<exists>as. node = Call (Name i) as)}
     \<union> {l. l = ''sort()'' \<and> (\<exists>v as. node = Call (Attribute v ''sort'') as)}"
proof (cases node)
  case (Call f as)
  then show ?thesis by (cases f) (auto simp: expensive_step_def)
qed (simp_all add: expensive_step_def)

lemma Union_labels1:
  "(\<Union>n \<in> P. {i. i \<in> E \<and> (\<exists>as. n = F i as)} \<union> {l. l = b \<and> (\<exists>v as. n = G v as)})
     = {i. i \<in> E \<and> (\<exists>as. F i as \<in> P)} \<union> {l. l = b \<and> (\<exists>v as. G v as \<in> P)}"
  by auto

lemma Union_labels2:
  "(\<Union>n \<in> P. if L n
            then (\<Union>c \<in> Q n. {l. l = a \<and> (\<exists>t v. c = F t v)} \<union> {l. l = b \<and> (\<exists>v as. c = G v as)})
            else {})
     = {l. l = a \<and> (\<exists>loop t v. loop \<in> P \<and> L loop \<and> F t v \<in> Q loop)}
       \<union> {l. l = b \<and> (\<exists>loop v as. loop \<in> P \<and> L loop \<and> G v as \<in> Q loop)}"
proof (rule set_eqI)
  fix l
  show "l \<in> (\<Union>n \<in> P. if L n
            then (\<Union>c \<in> Q n. {l. l = a \<and> (\<exists>t v. c = F t v)} \<union> {l. l = b \<and> (\<exists>v as. c = G v as)})
            else {})
     \<longleftrightarrow> l \<in> {l. l = a \<and> (\<exists>loop t v. loop \<in> P \<and> L loop \<and> F t v \<in> Q loop)}
       \<union> {l. l = b \<and> (\<exists>loop v as. loop \<in> P \<and> L loop \<and> G v as \<in> Q loop)}"
    by (simp split: if_splits) blast
qed

lemma set_detect_expensive_calls:
  "set (detect_expensive_calls func_node) =
     {i. i \<in> EXPENSIVE_FUNCS \<and> (\<exists>as. Call (Name i) as \<in> set (preorder func_node))}
     \<union> {l. l = ''sort()'' \<and> (\<exists>v as. Call (Attribute v ''sort'') as \<in> set (preorder func_node))}"
proof -
  have "fold expensive_step (walk func_node) [] =
          concat (map (\<lambda>n. expensive_step n []) (walk func_node))"
    using fold_append_step [of expensive_step "walk func_node" "[]", OF expensive_step_append]
    by simp
  then have "set (detect_expensive_calls func_node) =
          (\<Union>n \<in> set (preorder func_node). set (expensive_step n []))"
    by (simp add: detect_expensive_calls_def list_set_def set_walk)
  then show ?thesis unfolding set_expensive_step by (rule trans) (rule Union_labels1)
qed

lemma issue_step_append: "issue_step child issues = issues @ issue_step child []"
proof (cases child)
  case (Call f as)
  then show ?thesis by (cases f) (simp_all add: issue_step_def)
qed (simp_all add: issue_step_def)

lemma set_issue_step:
  "set (issue_step child []) =
     {l. l = ''string concatenation in loop (+=)'' \<and> (\<exists>t v. child = AugAssign t Add v)}
     \<union> {l. l = ''list append in loop (.append)''
            \<and> (\<exists>v as. child = Call (Attribute v ''append'') as)}"
proof (cases child)
  case (Call f as)
  then show ?thesis by (cases f) (auto simp: issue_step_def)
qed (auto simp: issue_step_def)

lemma loop_step_append: "loop_step node issues = issues @ loop_step node []"
  using fold_append_step [of issue_step "walk node", OF issue_step_append]
  by (simp add: loop_step_def)

lemma set_loop_step:
  "set (loop_step node []) =
     (if is_loop node then (\<Union>c \<in> set (preorder node). set (issue_step c [])) else {})"
  using fold_append_step [of issue_step "walk node" "[]", OF issue_step_append]
  by (auto simp: loop_step_def set_walk)

lemma set_detect_loop_issues:
  "set (detect_loop_issues func_node) =
     {l. l = ''string concatenation in loop (+=)''
          \<and> (\<exists>loop t v. loop \<in> set (preorder func_node) \<and> is_loop loop
                \<and> AugAssign t Add v \<in> set (preorder loop))}
     \<union> {l. l = ''list append in loop (.append)''
            \<and> (\<exists>loop v as. loop \<in> set (preorder func_node) \<and> is_loop loop
                  \<and> Call (Attribute v ''append'') as \<in> set (preorder loop))}"
proof -
  have "fold loop_step (walk func_node) [] =
          concat (map (\<lambda>n. loop_step n []) (walk func_node))"
    using fold_append_step [of loop_step "walk func_node" "[]", OF loop_step_append]
    by simp
  then have "set (detect_loop_issues func_node) =
          (\<Union>n \<in> set (preorder func_node). set (loop_step n []))"
    by (simp add: detect_loop_issues_def list_set_def set_walk)
  then show ?thesis unfolding set_loop_step set_issue_step by (rule trans) (rule Union_labels2)
qed

lemma visit_loop_counts:
  "depth \<le> max_depth \<Longrightarrow> visit node depth max_depth = fold max (loop_counts depth node) max_depth"
proof (induction node depth max_depth rule: visit.induct)
  case (1 node depth max_depth)
  let ?d = "if is_loop node then depth + 1 else depth"
  let ?m = "if is_loop node then max max_depth (depth + 1) else max_depth"
  have IH: "visit c ?d m = fold max (loop_counts ?d c) m"
    if "c \<in> set (iter_child_nodes node)" and "?d \<le> m" for c m
    using "1.IH" [OF that] .
  have inner: "fold (\<lambda>child m. visit child ?d m) cs m = fold max (concat (map (loop_counts ?d) cs)) m"
    if "set cs \<subseteq> set (iter_child_nodes node)" and "?d \<le> m" for cs m
    using that
  proof (induction cs arbitrary: m)
    case Nil
    then show ?case by simp
  next
    case (Cons c cs)
    have c: "visit c ?d m = fold max (loop_counts ?d c) m"
      using Cons.prems by (intro IH) simp_all
    have "?d \<le> visit c ?d m"
      using Cons.prems(2) visit_ge [of m c ?d] by (rule order_trans)
    then have "fold (\<lambda>child m. visit child ?d m) cs (visit c ?d m)
                 = fold max (concat (map (loop_counts ?d) cs)) (visit c ?d m)"
      using Cons.prems(1) by (intro Cons.IH) simp_all
    then show ?case by (simp add: c)
  qed
  have dm: "?d \<le> ?m" using "1.prems" by simp
  have m: "max ?d max_depth = ?m" using "1.prems" by (simp add: max.commute)
  have d: "?d = depth + (if is_loop node then 1 else 0)" by simp
  have "visit node depth max_depth
          = fold (\<lambda>child m. visit child ?d m) (iter_child_nodes node) ?m"
    by (subst visit.simps) (rule refl)
  also have "\<dots> = fold max (concat (map (loop_counts ?d) (iter_child_nodes node))) ?m"
    using dm by (intro inner) simp_all
  also have "\<dots> = fold max (?d # concat (map (loop_counts ?d) (iter_child_nodes node))) max_depth"
    by (simp only: fold_simps m)
  also have "?d # concat (map (loop_counts ?d) (iter_child_nodes node)) = loop_counts depth node"
    unfolding d by (rule loop_counts.simps [symmetric])
  finally show ?case .
qed

lemma loop_counts_ge: "x \<in> set (loop_counts d n) \<Longrightarrow> d \<le> x"
proof (induction d n arbitrary: x rule: loop_counts.induct)
  case (1 d n)
  let ?d = "d + (if is_loop n then 1 else 0)"
  from "1.prems" have "x \<in> set (?d # concat (map (loop_counts ?d) (iter_child_nodes n)))"
    by (subst (asm) loop_counts.simps) 
  then consider "x = ?d" | c where "c \<in> set (iter_child_nodes n)" "x \<in> set (loop_counts ?d c)"
    by auto
  then show ?case
  proof cases
    case 1
    then show ?thesis by simp
  next
    case 2
    then have "?d \<le> x" by (rule "1.IH")
    then show ?thesis by (simp split: if_splits)
  qed
qed

lemma loop_counts_nonempty: "loop_counts d n \<noteq> []"
  by (subst loop_counts.simps) simp

lemma get_max_loop_depth_Max:
  "get_max_loop_depth func_node = Max (set (loop_counts 0 func_node))"
proof -
  have "get_max_loop_depth func_node = fold max (loop_counts 0 func_node) 0"
    by (simp add: get_max_loop_depth_def visit_loop_counts)
  also have "\<dots> = Max (set (0 # loop_counts 0 func_node))"
    by (rule Max.set_eq_fold [symmetric])
  also have "\<dots> = max 0 (Max (set (loop_counts 0 func_node)))"
    using loop_counts_nonempty [of 0 func_node] by simp
  also have "\<dots> = Max (set (loop_counts 0 func_node))"
    using loop_counts_ge [of _ 0 func_node] loop_counts_nonempty [of 0 func_node]
    by (simp add: max_def Max_ge_iff)
  finally show ?thesis .
qed


lemma loop_counts_shift: "loop_counts (d + k) n = map (\<lambda>x. x + k) (loop_counts d n)"
proof (induction d n rule: loop_counts.induct)
  case (1 d n)
  let ?d = "d + (if is_loop n then 1 else 0)"
  have e: "d + k + (if is_loop n then 1 else 0) = ?d + k" by simp
  have IH: "loop_counts (?d + k) c = map (\<lambda>x. x + k) (loop_counts ?d c)"
    if "c \<in> set (iter_child_nodes n)" for c
    using that by (rule "1.IH")
  have "loop_counts (d + k) n
          = (?d + k) # concat (map (loop_counts (?d + k)) (iter_child_nodes n))"
    by (subst loop_counts.simps) (simp only: e)
  also have "map (loop_counts (?d + k)) (iter_child_nodes n)
               = map (\<lambda>c. map (\<lambda>x. x + k) (loop_counts ?d c)) (iter_child_nodes n)"
    using IH by (intro map_cong) simp_all
  also have "(?d + k) # concat (map (\<lambda>c. map (\<lambda>x. x + k) (loop_counts ?d c)) (iter_child_nodes n))
               = map (\<lambda>x. x + k) (?d # concat (map (loop_counts ?d) (iter_child_nodes n)))"
    by (simp add: map_concat comp_def)
  also have "?d # concat (map (loop_counts ?d) (iter_child_nodes n)) = loop_counts d n"
    by (rule loop_counts.simps [symmetric])
  finally show ?case .
qed

lemma fold_max_shift:
  "fold max (map (\<lambda>x. x + k) xs) (max m (a + k)) = max m (fold max xs a + (k::int))"
proof (induction xs arbitrary: a)
  case Nil
  then show ?case by simp
next
  case (Cons x xs)
  have "max (x + k) (max m (a + k)) = max m (max x a + k)" by linarith
  then show ?case using Cons.IH [of "max x a"] by simp
qed

lemma fold_max_loop_counts:
  "fold max (loop_counts k c) m = max m (get_max_loop_depth c + k)"
proof -
  let ?d = "if is_loop c then 1 else 0 :: int"
  let ?r = "concat (map (loop_counts ?d) (iter_child_nodes c))"
  have l: "loop_counts 0 c = ?d # ?r"
    by (subst loop_counts.simps) simp
  have "get_max_loop_depth c = fold max (loop_counts 0 c) 0"
    by (simp add: get_max_loop_depth_def visit_loop_counts)
  also have "\<dots> = fold max ?r ?d" by (simp add: l)
  finally have g: "get_max_loop_depth c = fold max ?r ?d" .
  have "loop_counts k c = map (\<lambda>x. x + k) (loop_counts 0 c)"
    using loop_counts_shift [of 0 k c] by simp
  then have "fold max (loop_counts k c) m = fold max (map (\<lambda>x. x + k) ?r) (max m (?d + k))"
    by (simp add: l max.commute)
  also have "\<dots> = max m (fold max ?r ?d + k)" by (rule fold_max_shift)
  finally show ?thesis by (simp only: g)
qed

lemma fold_max_concat_loop_counts:
  "fold max (concat (map (loop_counts k) cs)) m
     = fold (\<lambda>c acc. max acc (get_max_loop_depth c + k)) cs m"
  by (induction cs arbitrary: m) (simp_all add: fold_max_loop_counts)

lemma fold_max_children_shift:
  "fold (\<lambda>c acc. max acc (get_max_loop_depth c + k)) cs (a + k)
     = fold max (map get_max_loop_depth cs) a + k"
proof (induction cs arbitrary: a)
  case Nil
  then show ?case by simp
next
  case (Cons c cs)
  have "max (a + k) (get_max_loop_depth c + k) = max (get_max_loop_depth c) a + k" by linarith
  then show ?case using Cons.IH [of "max (get_max_loop_depth c) a"] by simp
qed

lemma get_max_loop_depth_rec:
  "get_max_loop_depth n =
     (if is_loop n then 1 else 0) + fold max (map get_max_loop_depth (iter_child_nodes n)) 0"
proof -
  let ?d = "if is_loop n then 1 else 0 :: int"
  have "get_max_loop_depth n = fold max (loop_counts 0 n) 0"
    by (simp add: get_max_loop_depth_def visit_loop_counts)
  also have "loop_counts 0 n = ?d # concat (map (loop_counts ?d) (iter_child_nodes n))"
    by (subst loop_counts.simps) simp
  also have "fold max (?d # concat (map (loop_counts ?d) (iter_child_nodes n))) 0
               = fold max (concat (map (loop_counts ?d) (iter_child_nodes n))) (0 + ?d)"
    by simp
  also have "\<dots> = fold (\<lambda>c acc. max acc (get_max_loop_depth c + ?d)) (iter_child_nodes n) (0 + ?d)"
    by (rule fold_max_concat_loop_counts)
  also have "\<dots> = fold max (map get_max_loop_depth (iter_child_nodes n)) 0 + ?d"
    by (rule fold_max_children_shift)
  finally show ?thesis by simp
qed

lemma no_loop_counts:
  "\<forall>x \<in> set (preorder n). \<not> is_loop x \<Longrightarrow> set (loop_counts d n) = {d}"
proof (induction d n rule: loop_counts.induct)
  case (1 d n)
  have p: "preorder n = n # concat (map preorder (iter_child_nodes n))"
    by (rule preorder.simps)
  from "1.prems" have n: "\<not> is_loop n" by (subst (asm) p) simp
  have "set (loop_counts d c) = {d}" if "c \<in> set (iter_child_nodes n)" for c
  proof -
    from "1.prems" that have "\<forall>x \<in> set (preorder c). \<not> is_loop x"
      by (subst (asm) p) simp
    with "1.IH" [OF that] n show ?thesis by simp
  qed
  then have "set (concat (map (loop_counts d) (iter_child_nodes n))) \<subseteq> {d}"
    by auto
  then show ?case using n by (subst loop_counts.simps) auto
qed

section \<open>The score\<close>

text \<open>
  Claim C1. For every function definition the analysis produces a record, and its score
  is \<open>min 100 (loop_depth * 12 + (20 if recursive) + 15 * |expensive_calls| +
  10 * |loop_issues|)\<close>. The score lies between 0 and 100. A function whose loop depth
  is 0, which is not recursive and has no expensive call and no loop issue has score 0
  and no reasons. The score does not decrease when the loop depth grows, when the
  recursion flag goes from false to true, or when the number of expensive-call labels or
  of loop-issue labels grows.
\<close>

theorem score_formula:
  assumes "is_FunctionDef func"
  shows "\<exists>h recursive.
           analyze_function code_lines func = Inr h \<and> is_recursive func = Inr recursive
         \<and> score h = compute_score (get_max_loop_depth func) recursive
                        (detect_expensive_calls func) (detect_loop_issues func)
         \<and> score h = min 100 (get_max_loop_depth func * 12 + (if recursive then 20 else 0)
                         + 15 * int (length (detect_expensive_calls func))
                         + 10 * int (length (detect_loop_issues func)))
         \<and> 0 \<le> score h \<and> score h \<le> 100
         \<and> (get_max_loop_depth func = 0 \<and> \<not> recursive \<and> detect_expensive_calls func = []
              \<and> detect_loop_issues func = [] \<longrightarrow> score h = 0 \<and> reasons h = [])
         \<and> (\<forall>d d' r r' e e' l l'.
               d \<le> d' \<and> (r \<longrightarrow> r') \<and> length e \<le> length e' \<and> length l \<le> length l'
               \<longrightarrow> compute_score d r e l \<le> compute_score d' r' e' l')"
proof -
  from assms obtain nm lineno end_lineno cs where f: "func = FunctionDef nm lineno end_lineno cs"
    by (cases func) simp_all
  have nn: "0 \<le> get_max_loop_depth func" by (rule get_max_loop_depth_nonneg)
  have mono: "\<forall>d d' r r' e e' l l'.
      d \<le> d' \<and> (r \<longrightarrow> r') \<and> length e \<le> length e' \<and> length l \<le> length l'
      \<longrightarrow> compute_score d r e l \<le> compute_score d' r' e' l'"
    using compute_score_mono by blast
  show ?thesis
    unfolding f analyze_function_FunctionDef is_recursive_FunctionDef Let_def
    using nn [unfolded f] mono
    by (simp add: compute_score_eq build_reasons_def)
qed

theorem score_formula_witness:
  "is_FunctionDef noop \<and> get_max_loop_depth noop = 0 \<and> is_recursive noop = Inr False
   \<and> detect_expensive_calls noop = [] \<and> detect_loop_issues noop = []
   \<and> map_sum id score (analyze_function [] noop) = Inr 0
   \<and> map_sum id reasons (analyze_function [] noop) = Inr []
   \<and> is_FunctionDef collect
   \<and> map_sum id score (analyze_function [] collect) = Inr (2 * 12 + 1 * 10)
   \<and> compute_score 1 False [] [] \<le> compute_score 2 False [] []
   \<and> compute_score 1 False [] [] \<le> compute_score 1 True [] []
   \<and> compute_score 1 False [] [] \<le> compute_score 1 False [''open''] []
   \<and> compute_score 1 False [] [] \<le> compute_score 1 False [] [''list append in loop (.append)'']"
proof -
  have f: "is_FunctionDef noop" by (simp add: noop_def)
  have d: "get_max_loop_depth noop = 0" by code_simp
  have r: "is_recursive noop = Inr False" by code_simp
  have e: "detect_expensive_calls noop = []" by code_simp
  have l: "detect_loop_issues noop = []" by code_simp
  have g: "is_FunctionDef collect" by (simp add: collect_def)
  have d': "get_max_loop_depth collect = 2" by code_simp
  have r': "is_recursive collect = Inr False" by code_simp
  have e': "detect_expensive_calls collect = []" by code_simp
  have l': "detect_loop_issues collect = [''list append in loop (.append)'']" by code_simp
  from score_formula [OF f, of "[]"] d r e l
  have 1: "map_sum id score (analyze_function [] noop) = Inr 0"
    and 2: "map_sum id reasons (analyze_function [] noop) = Inr []"
    and m: "\<And>d d' r r' e e' l l'.
               d \<le> d' \<and> (r \<longrightarrow> r') \<and> length e \<le> length e' \<and> length l \<le> length l'
               \<Longrightarrow> compute_score d r e l \<le> compute_score d' r' e' l'"
    by auto
  from score_formula [OF g, of "[]"] d' r' e' l'
  have 3: "map_sum id score (analyze_function [] collect) = Inr (2 * 12 + 1 * 10)"
    by auto
  show ?thesis using f d r e l 1 2 g 3 by (simp add: m)
qed

section \<open>Recursion\<close>

text \<open>
  Claim C9. For a function definition, \<open>is_recursive\<close> returns true exactly when some
  node of its subtree is a call whose callee is the bare identifier that is the
  function's own name. Only such a node counts: a call whose callee is an attribute
  access, or a bare call of another name, does not make the result true.
\<close>

theorem is_recursive_iff:
  "is_recursive (FunctionDef nm lineno end_lineno cs) =
     Inr (\<exists>as. Call (Name nm) as \<in> set (preorder (FunctionDef nm lineno end_lineno cs)))
   \<and> ((\<forall>n \<in> set (preorder (FunctionDef nm lineno end_lineno cs)). \<forall>g as. n = Call g as \<longrightarrow> g \<noteq> Name nm)
        \<longrightarrow> is_recursive (FunctionDef nm lineno end_lineno cs) = Inr False)"
proof -
  have "is_recursive (FunctionDef nm lineno end_lineno cs) =
     Inr (\<exists>as. Call (Name nm) as \<in> set (preorder (FunctionDef nm lineno end_lineno cs)))"
    by (simp only: is_recursive_FunctionDef list_ex_calls_name set_walk)
  then show ?thesis by auto
qed

theorem is_recursive_iff_witness:
  "filter (calls_name ''f'') (preorder method_call) = []
   \<and> is_recursive method_call = Inr False
   \<and> is_recursive fact = Inr True"
proof -
  have h: "\<forall>n \<in> set (preorder method_call). \<forall>g as. n = Call g as \<longrightarrow> g \<noteq> Name ''f''"
    by (simp add: method_call_def preorder.simps)
  have p: "Call (Name ''fact'') [Other [Name ''n'', Other []]]
            \<in> set (preorder (FunctionDef ''fact'' 1 2
                 [Other [Other []], Other [Call (Name ''fact'') [Other [Name ''n'', Other []]]]]))"
    by (simp add: preorder.simps)
  from is_recursive_iff [of "''f''" 1 2
      "[Other [Other []], Other [Call (Attribute (Name ''obj'') ''f'') [Other []]]]"]
    h [unfolded method_call_def]
  have 1: "is_recursive method_call = Inr False"
    unfolding method_call_def by blast
  from is_recursive_iff [of "''fact''" 1 2
      "[Other [Other []], Other [Call (Name ''fact'') [Other [Name ''n'', Other []]]]]"] p
  have 2: "is_recursive fact = Inr True"
    unfolding fact_def by auto
  have "filter (calls_name ''f'') (preorder method_call) = []" by code_simp
  with 1 2 show ?thesis by (intro conjI)
qed

section \<open>Expensive calls\<close>

lemma distinct_list_set: "distinct (list_set xs)"
  by (simp add: list_set_def)

text \<open>
  Claim C7. The list returned by \<open>detect_expensive_calls\<close> has no duplicates, and its
  elements are exactly: every identifier of \<open>sorted\<close>, \<open>open\<close>, \<open>print\<close> that some node
  of the subtree calls as a bare identifier, and the label \<open>sort()\<close> when some node of
  the subtree is a call whose callee is an attribute access named \<open>sort\<close>, whatever
  the receiver. So the length of the list is the number of distinct labels, however
  often a call is repeated.
\<close>

theorem detect_expensive_calls_labels:
  "distinct (detect_expensive_calls func_node)
   \<and> set (detect_expensive_calls func_node) =
       {i. i \<in> {''sorted'', ''open'', ''print''}
            \<and> (\<exists>as. Call (Name i) as \<in> set (preorder func_node))}
       \<union> {l. l = ''sort()''
              \<and> (\<exists>v as. Call (Attribute v ''sort'') as \<in> set (preorder func_node))}
   \<and> length (detect_expensive_calls func_node) = card (set (detect_expensive_calls func_node))"
proof -
  have d: "distinct (detect_expensive_calls func_node)"
    by (simp add: detect_expensive_calls_def distinct_list_set)
  have s: "set (detect_expensive_calls func_node) =
       {i. i \<in> {''sorted'', ''open'', ''print''}
            \<and> (\<exists>as. Call (Name i) as \<in> set (preorder func_node))}
       \<union> {l. l = ''sort()''
              \<and> (\<exists>v as. Call (Attribute v ''sort'') as \<in> set (preorder func_node))}"
    using set_detect_expensive_calls [of func_node] by (simp only: EXPENSIVE_FUNCS_def)
  from d have "length (detect_expensive_calls func_node) = card (set (detect_expensive_calls func_node))"
    by (simp add: distinct_card)
  with d s show ?thesis by (intro conjI)
qed

theorem detect_expensive_calls_labels_witness:
  "detect_expensive_calls sorted_twice = [''sorted'']
   \<and> card (set (detect_expensive_calls sorted_twice)) = 1
   \<and> compute_score (get_max_loop_depth sorted_twice) False
         (detect_expensive_calls sorted_twice) (detect_loop_issues sorted_twice) = 15"
proof -
  have 1: "detect_expensive_calls sorted_twice = [''sorted'']" by code_simp
  have 2: "compute_score (get_max_loop_depth sorted_twice) False
         (detect_expensive_calls sorted_twice) (detect_loop_issues sorted_twice) = 15"
    by code_simp
  from detect_expensive_calls_labels [of sorted_twice]
  have "length (detect_expensive_calls sorted_twice) = card (set (detect_expensive_calls sorted_twice))"
    by blast
  with 1 have 3: "card (set (detect_expensive_calls sorted_twice)) = 1" by simp
  from 1 3 2 show ?thesis by (intro conjI)
qed

section \<open>Loop issues\<close>

text \<open>
  Claim C8. The list returned by \<open>detect_loop_issues\<close> has no duplicates. It holds the
  label \<open>string concatenation in loop (+=)\<close> exactly when some \<open>For\<close> or \<open>While\<close> node
  of the function's subtree has, anywhere in its own subtree (nested loops included), an
  augmented assignment with the operator \<open>Add\<close>; it holds the label
  \<open>list append in loop (.append)\<close> exactly when some such loop has in its subtree a
  call whose callee is an attribute access named \<open>append\<close>; it holds nothing else.
  A function without loops has no loop issues.
\<close>

theorem detect_loop_issues_labels:
  "distinct (detect_loop_issues func_node)
   \<and> set (detect_loop_issues func_node) =
       {l. l = ''string concatenation in loop (+=)''
            \<and> (\<exists>loop t v. loop \<in> set (preorder func_node) \<and> is_loop loop
                  \<and> AugAssign t Add v \<in> set (preorder loop))}
       \<union> {l. l = ''list append in loop (.append)''
              \<and> (\<exists>loop v as. loop \<in> set (preorder func_node) \<and> is_loop loop
                    \<and> Call (Attribute v ''append'') as \<in> set (preorder loop))}
   \<and> ((\<forall>n \<in> set (preorder func_node). \<not> is_loop n) \<longrightarrow> detect_loop_issues func_node = [])"
proof -
  have d: "distinct (detect_loop_issues func_node)"
    by (simp add: detect_loop_issues_def distinct_list_set)
  note s = set_detect_loop_issues [of func_node]
  have "set (detect_loop_issues func_node) = {}" if "\<forall>n \<in> set (preorder func_node). \<not> is_loop n"
    unfolding s using that by blast
  then have "(\<forall>n \<in> set (preorder func_node). \<not> is_loop n) \<longrightarrow> detect_loop_issues func_node = []"
    by simp
  with d s show ?thesis by (intro conjI)
qed

theorem detect_loop_issues_labels_witness:
  "filter is_loop (preorder noop) = [] \<and> detect_loop_issues noop = []
   \<and> distinct (detect_loop_issues collect)
   \<and> set (detect_loop_issues collect) = {''list append in loop (.append)''}"
proof -
  have f: "filter is_loop (preorder noop) = []" by code_simp
  then have n: "\<forall>n \<in> set (preorder noop). \<not> is_loop n" by (simp add: filter_empty_conv)
  have c: "detect_loop_issues collect = [''list append in loop (.append)'']" by code_simp
  from detect_loop_issues_labels [of noop] n have "detect_loop_issues noop = []" by blast
  moreover from detect_loop_issues_labels [of collect]
  have "distinct (detect_loop_issues collect)" by blast
  ultimately show ?thesis using f c by simp
qed

section \<open>Loop depth\<close>

lemma fold_max_map_ge:
  "c \<in> set cs \<Longrightarrow> f c \<le> fold max (map f cs) (m::int)"
proof (induction cs arbitrary: m)
  case Nil
  then show ?case by simp
next
  case (Cons a cs)
  show ?case
  proof (cases "c = a")
    case True
    have "f a \<le> max (f a) m" by simp
    also have "\<dots> \<le> fold max (map f cs) (max (f a) m)"
      using fold_ge [of "map f cs" max "max (f a) m"] by simp
    finally show ?thesis using True by simp
  next
    case False
    with Cons.prems have "c \<in> set cs" by simp
    then show ?thesis using Cons.IH by simp
  qed
qed

text \<open>
  Claim C3, as the code has it. \<open>get_max_loop_depth\<close> is the largest number of \<open>For\<close>
  and \<open>While\<close> nodes on a path from the root of the subtree to one of its nodes.
  Equivalently it is 1 for a loop node and 0 for any other node, plus the largest
  depth among the children (0 without children): a loop counts for its own subtree
  only, and every other kind of node, a nested function definition included, passes the
  depth of its children on unchanged. So a node's depth is never below the depth of a
  child, a subtree without loops has depth 0, and a loop inside a nested function
  definition counts for the enclosing function exactly as it would inside any other
  construct.
\<close>

theorem loop_depth_structural:
  "get_max_loop_depth n = Max (set (loop_counts 0 n))
   \<and> get_max_loop_depth n =
       (if is_loop n then 1 else 0) + fold max (map get_max_loop_depth (iter_child_nodes n)) 0
   \<and> (\<forall>c \<in> set (iter_child_nodes n). get_max_loop_depth c \<le> get_max_loop_depth n)
   \<and> ((\<forall>x \<in> set (preorder n). \<not> is_loop x) \<longrightarrow> get_max_loop_depth n = 0)
   \<and> get_max_loop_depth (FunctionDef nm lineno end_lineno cs) = get_max_loop_depth (Other cs)
   \<and> get_max_loop_depth (For cs) = 1 + get_max_loop_depth (Other cs)
   \<and> get_max_loop_depth (While cs) = 1 + get_max_loop_depth (Other cs)"
proof -
  have 1: "get_max_loop_depth n = Max (set (loop_counts 0 n))"
    by (rule get_max_loop_depth_Max)
  have 2: "get_max_loop_depth n =
       (if is_loop n then 1 else 0) + fold max (map get_max_loop_depth (iter_child_nodes n)) 0"
    by (rule get_max_loop_depth_rec)
  have 3: "\<forall>c \<in> set (iter_child_nodes n). get_max_loop_depth c \<le> get_max_loop_depth n"
  proof
    fix c assume "c \<in> set (iter_child_nodes n)"
    then have "get_max_loop_depth c \<le> fold max (map get_max_loop_depth (iter_child_nodes n)) 0"
      by (rule fold_max_map_ge)
    then show "get_max_loop_depth c \<le> get_max_loop_depth n"
      by (subst (2) get_max_loop_depth_rec) simp
  qed
  have 4: "(\<forall>x \<in> set (preorder n). \<not> is_loop x) \<longrightarrow> get_max_loop_depth n = 0"
    by (simp add: get_max_loop_depth_Max no_loop_counts)
  have 5: "get_max_loop_depth (FunctionDef nm lineno end_lineno cs) = get_max_loop_depth (Other cs)"
    by (simp add: get_max_loop_depth_rec [of "FunctionDef nm lineno end_lineno cs"]
        get_max_loop_depth_rec [of "Other cs"])
  have 6: "get_max_loop_depth (For cs) = 1 + get_max_loop_depth (Other cs)"
    by (simp add: get_max_loop_depth_rec [of "For cs"] get_max_loop_depth_rec [of "Other cs"])
  have 7: "get_max_loop_depth (While cs) = 1 + get_max_loop_depth (Other cs)"
    by (simp add: get_max_loop_depth_rec [of "While cs"] get_max_loop_depth_rec [of "Other cs"])
  from 1 2 3 4 5 6 7 show ?thesis by (intro conjI)
qed

theorem loop_depth_structural_witness:
  "filter is_loop (preorder noop) = [] \<and> get_max_loop_depth noop = 0
   \<and> get_max_loop_depth three_whiles = 3
   \<and> get_max_loop_depth three_whiles = Max (set (loop_counts 0 three_whiles))
   \<and> list_all (\<lambda>c. get_max_loop_depth c \<le> get_max_loop_depth outer_def)
        (iter_child_nodes outer_def)"
proof -
  have f: "filter is_loop (preorder noop) = []" by code_simp
  then have "\<forall>x \<in> set (preorder noop). \<not> is_loop x" by (simp add: filter_empty_conv)
  with loop_depth_structural [of noop] have 1: "get_max_loop_depth noop = 0" by blast
  have 2: "get_max_loop_depth three_whiles = 3" by code_simp
  from loop_depth_structural [of three_whiles]
  have 3: "get_max_loop_depth three_whiles = Max (set (loop_counts 0 three_whiles))" by blast
  from loop_depth_structural [of outer_def]
  have "\<forall>c \<in> set (iter_child_nodes outer_def). get_max_loop_depth c \<le> get_max_loop_depth outer_def"
    by blast
  then have 4: "list_all (\<lambda>c. get_max_loop_depth c \<le> get_max_loop_depth outer_def)
        (iter_child_nodes outer_def)"
    by (simp add: list_all_iff)
  from f 1 2 3 4 show ?thesis by (intro conjI)
qed

text \<open>
  The claim's last clause fails: the only loop of \<open>outer_def\<close> stands inside the nested
  function \<open>inner_def\<close>, and the loop depth of \<open>outer_def\<close> is 1, not 0.
\<close>

theorem nested_function_loop_counterexample:
  "outer_def = FunctionDef ''outer'' 1 5 [Other [], inner_def, Other [Name ''inner'']]
   \<and> is_FunctionDef inner_def
   \<and> filter is_loop (preorder outer_def) = filter is_loop (preorder inner_def)
   \<and> get_max_loop_depth outer_def = 1
   \<and> get_max_loop_depth outer_def \<noteq> 0"
proof -
  have 1: "is_FunctionDef inner_def" by (simp add: inner_def_def)
  have 2: "filter is_loop (preorder outer_def) = filter is_loop (preorder inner_def)"
    by code_simp
  have 3: "get_max_loop_depth outer_def = 1" by code_simp
  from 1 2 3 show ?thesis by (simp add: outer_def_def)
qed

section \<open>Function extraction\<close>

text \<open>
  Claim C4, as the code has it. \<open>function_nodes\<close> lists the \<open>FunctionDef\<close> nodes of the
  tree in breadth-first order (level by level, each level from left to right), not in
  depth-first pre-order. It holds every \<open>FunctionDef\<close> node of the tree, nested ones
  included, exactly once: it is a permutation of the \<open>FunctionDef\<close> nodes in pre-order.
  A tree without function definitions gives the empty list. The step is a total
  function: it has no error result.
\<close>

theorem function_nodes_level_order:
  "function_nodes tree = filter is_FunctionDef (level_order tree)
   \<and> mset (function_nodes tree) = mset (filter is_FunctionDef (preorder tree))
   \<and> ((\<forall>n \<in> set (preorder tree). \<not> is_FunctionDef n) \<longrightarrow> function_nodes tree = [])"
proof -
  have 1: "function_nodes tree = filter is_FunctionDef (level_order tree)"
    by (simp add: function_nodes_def walk_level_order)
  have 2: "mset (function_nodes tree) = mset (filter is_FunctionDef (preorder tree))"
    by (simp add: function_nodes_def mset_walk)
  have 3: "(\<forall>n \<in> set (preorder tree). \<not> is_FunctionDef n) \<longrightarrow> function_nodes tree = []"
    by (simp add: function_nodes_def set_walk filter_empty_conv)
  from 1 2 3 show ?thesis by (intro conjI)
qed

theorem function_nodes_level_order_witness:
  "filter is_FunctionDef (preorder (Other [Name ''x''])) = []
   \<and> function_nodes (Other [Name ''x'']) = []
   \<and> map func_name (function_nodes outer_noop_module) = [Inr ''outer'', Inr ''noop'', Inr ''inner'']
   \<and> function_nodes outer_noop_module = filter is_FunctionDef (level_order outer_noop_module)"
proof -
  have f: "filter is_FunctionDef (preorder (Other [Name ''x''])) = []" by code_simp
  then have "\<forall>n \<in> set (preorder (Other [Name ''x''])). \<not> is_FunctionDef n"
    by (simp add: filter_empty_conv)
  with function_nodes_level_order [of "Other [Name ''x'']"]
  have 1: "function_nodes (Other [Name ''x'']) = []" by blast
  have 2: "map func_name (function_nodes outer_noop_module)
             = [Inr ''outer'', Inr ''noop'', Inr ''inner'']"
    by code_simp
  from function_nodes_level_order [of outer_noop_module]
  have 3: "function_nodes outer_noop_module = filter is_FunctionDef (level_order outer_noop_module)"
    by blast
  from f 1 2 3 show ?thesis by (intro conjI)
qed

text \<open>
  The claimed order fails: in pre-order \<open>inner\<close> comes before \<open>noop\<close>, while the
  extraction lists \<open>noop\<close> before \<open>inner\<close>.
\<close>

theorem function_nodes_preorder_counterexample:
  "map func_name (filter is_FunctionDef (preorder outer_noop_module))
     = [Inr ''outer'', Inr ''inner'', Inr ''noop'']
   \<and> map func_name (function_nodes outer_noop_module)
     = [Inr ''outer'', Inr ''noop'', Inr ''inner'']
   \<and> function_nodes outer_noop_module \<noteq> filter is_FunctionDef (preorder outer_noop_module)"
proof -
  have 1: "map func_name (filter is_FunctionDef (preorder outer_noop_module))
     = [Inr ''outer'', Inr ''inner'', Inr ''noop'']"
    by code_simp
  have 2: "map func_name (function_nodes outer_noop_module)
     = [Inr ''outer'', Inr ''noop'', Inr ''inner'']"
    by code_simp
  from 1 2 have "function_nodes outer_noop_module \<noteq> filter is_FunctionDef (preorder outer_noop_module)"
    by auto
  with 1 2 show ?thesis by (intro conjI)
qed

section \<open>The result\<close>

lemma is_FunctionDef_function_nodes: "f \<in> set (function_nodes tree) \<Longrightarrow> is_FunctionDef f"
  by (simp add: function_nodes_def)

lemma analyze_function_total:
  "is_FunctionDef func \<Longrightarrow> \<exists>h. analyze_function code_lines func = Inr h"
  by (cases func) (simp_all add: analyze_function_FunctionDef Let_def)

lemma analyze_loop_total:
  assumes "\<forall>f \<in> set fs. is_FunctionDef f"
  shows "\<exists>hs'. analyze_loop code_lines fs hs = Inr (hs @ hs')
               \<and> map (analyze_function code_lines) fs = map Inr hs'"
  using assms
proof (induction fs arbitrary: hs)
  case Nil
  then show ?case by simp
next
  case (Cons f fs)
  from Cons.prems obtain h where h: "analyze_function code_lines f = Inr h"
    using analyze_function_total [of f code_lines] by auto
  from Cons.prems have "\<forall>f \<in> set fs. is_FunctionDef f" by simp
  from Cons.IH [OF this, of "hs @ [h]"] obtain hs' where
    "analyze_loop code_lines fs (hs @ [h]) = Inr ((hs @ [h]) @ hs')"
    "map (analyze_function code_lines) fs = map Inr hs'"
    by blast
  then have "analyze_loop code_lines (f # fs) hs = Inr (hs @ (h # hs'))
             \<and> map (analyze_function code_lines) (f # fs) = map Inr (h # hs')"
    using h by simp
  then show ?case by blast
qed

lemma sorted_sort_reverse: "sorted_wrt (\<lambda>a b. score a \<ge> score b) (sort_reverse hs)"
proof -
  have "sorted (map score (sort_key score (rev hs)))" by (rule sorted_sort_key)
  then have "sorted_wrt (\<lambda>a b. score a \<le> score b) (sort_key score (rev hs))"
    by (simp add: sorted_map)
  then show ?thesis
    unfolding sort_reverse_def by (simp add: sorted_wrt_rev)
qed

lemma mset_sort_reverse: "mset (sort_reverse hs) = mset hs"
  by (simp add: sort_reverse_def)

lemma sort_reverse_stable:
  "filter (\<lambda>h. score h = k) (sort_reverse hs) = filter (\<lambda>h. score h = k) hs"
  by (simp add: sort_reverse_def sort_key_stable rev_filter [symmetric])

lemma length_sort_reverse: "length (sort_reverse hs) = length hs"
  by (simp add: sort_reverse_def)

lemma analyze_Parsed:
  assumes "ast_parse (code req) = Parsed tree"
  shows "\<exists>hs. map (analyze_function (splitlines (code req))) (function_nodes tree) = map Inr hs
          \<and> analyze ast_parse splitlines req =
              Inr \<lparr>summary =
                     \<lparr>summary_filename = filename req, language = ''python'',
                      function_count = int (length (function_nodes tree)),
                      hotspot_count = int (length (function_nodes tree)),
                      electricity_rate_per_kwh = Some ELECTRICITY_RATE_PER_KWH,
                      summary_note = NOTE\<rparr>,
                   hotspots = sort_reverse hs, error = None\<rparr>"
proof -
  have "\<forall>f \<in> set (function_nodes tree). is_FunctionDef f"
    by (simp add: is_FunctionDef_function_nodes)
  from analyze_loop_total [OF this, of "splitlines (code req)" "[]"] obtain hs where
    l: "analyze_loop (splitlines (code req)) (function_nodes tree) [] = Inr hs"
    and m: "map (analyze_function (splitlines (code req))) (function_nodes tree) = map Inr hs"
    by auto
  from m have "length (function_nodes tree) = length hs"
    using length_map by metis
  then show ?thesis using assms l m
    by (simp add: analyze_def Let_def length_sort_reverse)
qed

text \<open>
  Claim C5. When parsing succeeds, \<open>analyze\<close> returns a result whose hotspot list is the
  list of the per-function records, taken in the order of \<open>function_nodes\<close>, sorted by
  descending score: the scores never increase along the list, the list is a permutation
  of the records, and the records of any one score stand in their original order. The
  summary's \<open>function_count\<close> is the number of extracted function definitions and
  equals \<open>hotspot_count\<close>, the length of the hotspot list.
\<close>

theorem analyze_hotspots_sorted:
  assumes "ast_parse (code req) = Parsed tree"
  shows "\<exists>r hs. analyze ast_parse splitlines req = Inr r
           \<and> map (analyze_function (splitlines (code req))) (function_nodes tree) = map Inr hs
           \<and> hotspots r = sort_reverse hs
           \<and> sorted_wrt (\<lambda>a b. score a \<ge> score b) (hotspots r)
           \<and> mset (hotspots r) = mset hs
           \<and> (\<forall>k. filter (\<lambda>h. score h = k) (hotspots r) = filter (\<lambda>h. score h = k) hs)
           \<and> function_count (summary r) = int (length (function_nodes tree))
           \<and> hotspot_count (summary r) = function_count (summary r)
           \<and> hotspot_count (summary r) = int (length (hotspots r))"
proof -
  from analyze_Parsed [of ast_parse req tree splitlines, OF assms] obtain hs where
    m: "map (analyze_function (splitlines (code req))) (function_nodes tree) = map Inr hs"
    and a: "analyze ast_parse splitlines req =
              Inr \<lparr>summary =
                     \<lparr>summary_filename = filename req, language = ''python'',
                      function_count = int (length (function_nodes tree)),
                      hotspot_count = int (length (function_nodes tree)),
                      electricity_rate_per_kwh = Some ELECTRICITY_RATE_PER_KWH,
                      summary_note = NOTE\<rparr>,
                   hotspots = sort_reverse hs, error = None\<rparr>"
    by blast
  from m have "length (function_nodes tree) = length hs"
    using length_map by metis
  then show ?thesis
    using m a
    by (simp add: sorted_sort_reverse mset_sort_reverse sort_reverse_stable length_sort_reverse)
qed

theorem analyze_hotspots_sorted_witness:
  "map func_name (function_nodes three_functions) = [Inr ''a'', Inr ''b'', Inr ''c'']
   \<and> map_sum id (\<lambda>r. map (\<lambda>h. (name h, score h)) (hotspots r))
        (analyze (\<lambda>c. Parsed three_functions) (\<lambda>c. [c])
           \<lparr>code = ''src'', filename = Some ''main.py''\<rparr>)
      = Inr [(''b'', 24), (''a'', 12), (''c'', 12)]
   \<and> map_sum id (\<lambda>r. (function_count (summary r), hotspot_count (summary r)))
        (analyze (\<lambda>c. Parsed three_functions) (\<lambda>c. [c])
           \<lparr>code = ''src'', filename = Some ''main.py''\<rparr>)
      = Inr (3, 3)"
proof -
  let ?req = "\<lparr>code = ''src'', filename = Some ''main.py''\<rparr>"
  let ?p = "\<lambda>c::string. Parsed three_functions"
  let ?s = "\<lambda>c::string. [c]"
  have p: "?p (code ?req) = Parsed three_functions" by simp
  have n: "map func_name (function_nodes three_functions) = [Inr ''a'', Inr ''b'', Inr ''c'']"
    by code_simp
  have l: "length (function_nodes three_functions) = 3" by code_simp
  let ?ns = "\<lambda>h. (name h, score h)"
  have ns: "map (map_sum id ?ns \<circ> analyze_function (?s (code ?req))) (function_nodes three_functions)
              = [Inr (''a'', 12), Inr (''b'', 24), Inr (''c'', 12)]"
    unfolding three_functions_def function_nodes_def walk_def
    by (simp add: analyze_function_name_score) code_simp
  from analyze_hotspots_sorted [of ?p ?req three_functions ?s, OF p] obtain r hs where
    r: "analyze ?p ?s ?req = Inr r"
    and m: "map (analyze_function (?s (code ?req))) (function_nodes three_functions) = map Inr hs"
    and s: "hotspots r = sort_reverse hs"
    and c: "function_count (summary r) = int (length (function_nodes three_functions))"
      "hotspot_count (summary r) = function_count (summary r)"
    by blast
  from m have "map (map_sum id ?ns) (map (analyze_function (?s (code ?req)))
                 (function_nodes three_functions)) = map (map_sum id ?ns) (map Inr hs)"
    by (rule arg_cong)
  with ns have "map (\<lambda>h. Inr (?ns h) :: error + string \<times> int) hs
                  = [Inr (''a'', 12), Inr (''b'', 24), Inr (''c'', 12)]"
    by (simp add: comp_def)
  then have "map Inr (map ?ns hs) = map (Inr :: _ \<Rightarrow> error + string \<times> int) [(''a'', 12), (''b'', 24), (''c'', 12)]"
    by (simp add: comp_def)
  then have hs: "map ?ns hs = [(''a'', 12), (''b'', 24), (''c'', 12)]"
    by (simp only: inj_map_eq_map [OF inj_Inr])
  have "map ?ns (sort_reverse hs) = rev (map ?ns (sort_key score (rev hs)))"
    by (simp add: sort_reverse_def rev_map)
  also have "map ?ns (sort_key score (rev hs)) = sort_key snd (map ?ns (rev hs))"
    using map_sort_key [of ?ns snd "rev hs"] by simp
  also have "map ?ns (rev hs) = rev (map ?ns hs)"
    by (simp add: rev_map)
  also have "rev (sort_key snd (rev (map ?ns hs))) = [(''b'', 24), (''a'', 12), (''c'', 12)]"
    unfolding hs by simp
  finally have h: "map_sum id (\<lambda>r. map ?ns (hotspots r)) (analyze ?p ?s ?req)
      = Inr [(''b'', 24), (''a'', 12), (''c'', 12)]"
    by (simp add: r s)
  from c l r have "map_sum id (\<lambda>r. (function_count (summary r), hotspot_count (summary r)))
          (analyze ?p ?s ?req) = Inr (3, 3)"
    by simp
  with n h show ?thesis by (intro conjI)
qed

lemma sort_reverse_example:
  "map score (sort_reverse
     [\<lparr>name = ''p'', score = 10, category = ''CPU'', reasons = [], start_line = 1,
        end_line = 1, code_snippet = '''', estimated_joules_per_run = 0,
        estimated_cost_per_1000_runs = 0, estimated_cost_per_1m_runs = 0\<rparr>,
      \<lparr>name = ''q'', score = 90, category = ''CPU'', reasons = [], start_line = 2,
        end_line = 2, code_snippet = '''', estimated_joules_per_run = 0,
        estimated_cost_per_1000_runs = 0, estimated_cost_per_1m_runs = 0\<rparr>,
      \<lparr>name = ''r'', score = 50, category = ''CPU'', reasons = [], start_line = 3,
        end_line = 3, code_snippet = '''', estimated_joules_per_run = 0,
        estimated_cost_per_1000_runs = 0, estimated_cost_per_1m_runs = 0\<rparr>]) = [90, 50, 10]"
  by code_simp

section \<open>Parse failures\<close>

text \<open>
  Claim C6. \<open>analyze\<close> returns a result in every case; no exception of the parser
  reaches the caller. When the parser raises a syntax error, the result has
  \<open>function_count\<close> 0, \<open>hotspot_count\<close> 0, no hotspots, and the error text
  \<open>SyntaxError at line L: M\<close> with the error's line number \<open>L\<close> in decimal and its
  message \<open>M\<close>. When the parser raises another exception, the result has the same
  summary, no hotspots, and the error text \<open>Invalid Python code: M\<close> with \<open>M\<close> the text
  of the exception. When parsing succeeds the result has no error.
\<close>

theorem analyze_parse_failure:
  "(\<exists>r. analyze ast_parse splitlines req = Inr r)
   \<and> (ast_parse (code req) = SyntaxError lineno msg \<longrightarrow>
        analyze ast_parse splitlines req =
          Inr \<lparr>summary =
                 \<lparr>summary_filename = filename req, language = ''python'',
                  function_count = 0, hotspot_count = 0, electricity_rate_per_kwh = None,
                  summary_note = NOTE\<rparr>,
               hotspots = [],
               error = Some (''SyntaxError at line '' @ str_lineno lineno @ '': '' @ msg)\<rparr>)
   \<and> str_lineno (Some l) = str_int l
   \<and> (ast_parse (code req) = OtherException msg \<longrightarrow>
        analyze ast_parse splitlines req =
          Inr \<lparr>summary =
                 \<lparr>summary_filename = filename req, language = ''python'',
                  function_count = 0, hotspot_count = 0, electricity_rate_per_kwh = None,
                  summary_note = NOTE\<rparr>,
               hotspots = [],
               error = Some (''Invalid Python code: '' @ msg)\<rparr>)
   \<and> (ast_parse (code req) = Parsed tree \<longrightarrow>
        (\<exists>r. analyze ast_parse splitlines req = Inr r \<and> error r = None))"
proof -
  have 1: "\<exists>r. analyze ast_parse splitlines req = Inr r"
  proof (cases "ast_parse (code req)")
    case (Parsed t)
    from analyze_Parsed [of ast_parse req t splitlines, OF this] show ?thesis by blast
  qed (simp_all add: analyze_def)
  have 2: "ast_parse (code req) = Parsed tree \<longrightarrow>
        (\<exists>r. analyze ast_parse splitlines req = Inr r \<and> error r = None)"
  proof
    assume "ast_parse (code req) = Parsed tree"
    from analyze_Parsed [of ast_parse req tree splitlines, OF this] show
      "\<exists>r. analyze ast_parse splitlines req = Inr r \<and> error r = None"
      by auto
  qed
  from 1 2 show ?thesis
    by (simp add: analyze_def failure_summary_def str_lineno_def)
qed

theorem analyze_parse_failure_witness:
  "analyze (\<lambda>c. SyntaxError (Some 1) ''invalid syntax'') (\<lambda>c. [c])
        \<lparr>code = ''def f(:'', filename = None\<rparr> =
       Inr \<lparr>summary =
              \<lparr>summary_filename = None, language = ''python'',
               function_count = 0, hotspot_count = 0, electricity_rate_per_kwh = None,
               summary_note = NOTE\<rparr>,
            hotspots = [],
            error = Some ''SyntaxError at line 1: invalid syntax''\<rparr>
   \<and> map_sum id error
        (analyze (\<lambda>c. OtherException ''source code string cannot contain null bytes'') (\<lambda>c. [c])
           \<lparr>code = ''x'', filename = None\<rparr>)
      = Inr (Some ''Invalid Python code: source code string cannot contain null bytes'')
   \<and> map_sum id error
        (analyze (\<lambda>c. Parsed three_functions) (\<lambda>c. [c]) \<lparr>code = ''x'', filename = None\<rparr>)
      = Inr None"
proof -
  let ?req = "\<lparr>code = ''def f(:'', filename = None\<rparr>"
  let ?p = "\<lambda>c::string. SyntaxError (Some 1) ''invalid syntax''"
  let ?q = "\<lambda>c::string. OtherException ''source code string cannot contain null bytes''"
  let ?t = "\<lambda>c::string. Parsed three_functions"
  let ?s = "\<lambda>c::string. [c]"
  let ?x = "\<lparr>code = ''x'', filename = None\<rparr>"
  have p: "?p (code ?req) = SyntaxError (Some 1) ''invalid syntax''" by simp
  have s: "str_int 1 = ''1''" by code_simp
  from analyze_parse_failure [of ?p ?s ?req "Some 1" "''invalid syntax''" 1] p s
  have 1: "analyze ?p ?s ?req =
       Inr \<lparr>summary =
              \<lparr>summary_filename = None, language = ''python'',
               function_count = 0, hotspot_count = 0, electricity_rate_per_kwh = None,
               summary_note = NOTE\<rparr>,
            hotspots = [],
            error = Some ''SyntaxError at line 1: invalid syntax''\<rparr>"
    by simp
  from analyze_parse_failure [of ?q ?s ?x _ "''source code string cannot contain null bytes''"]
  have 2: "map_sum id error (analyze ?q ?s ?x)
      = Inr (Some ''Invalid Python code: source code string cannot contain null bytes'')"
    by simp
  from analyze_parse_failure [of ?t ?s ?x _ _ _ three_functions] obtain r where
    "analyze ?t ?s ?x = Inr r" "error r = None"
    by auto
  then have 3: "map_sum id error (analyze ?t ?s ?x) = Inr None"
    by simp
  from 1 2 3 show ?thesis by (intro conjI)
qed

section \<open>The category\<close>

text \<open>
  Claim C2, as the code has it. The category of an analysed function is the string
  \<open>I/O\<close> (with a slash) when \<open>open\<close> is among its expensive calls and the string
  \<open>CPU\<close> otherwise; it is one of these two strings, and it depends on the expensive
  calls only, whatever the loop depth and the recursion flag are.
\<close>

theorem category_io_iff_open:
  assumes "is_FunctionDef func"
  shows "\<exists>h. analyze_function code_lines func = Inr h
           \<and> category h = (if ''open'' \<in> set (detect_expensive_calls func) then ''I/O'' else ''CPU'')
           \<and> (category h = ''I/O'' \<longleftrightarrow> ''open'' \<in> set (detect_expensive_calls func))
           \<and> (category h = ''CPU'' \<longleftrightarrow> ''open'' \<notin> set (detect_expensive_calls func))
           \<and> (\<forall>d d' r r' e. categorize d r e = categorize d' r' e)"
proof -
  from assms obtain nm lineno end_lineno cs where f: "func = FunctionDef nm lineno end_lineno cs"
    by (cases func) simp_all
  show ?thesis
    unfolding f analyze_function_FunctionDef Let_def
    by (simp add: categorize_eq)
qed

theorem category_io_iff_open_witness:
  "is_FunctionDef load_def \<and> detect_expensive_calls load_def = [''open'']
   \<and> map_sum id category (analyze_function [] load_def) = Inr ''I/O''
   \<and> is_FunctionDef fact \<and> detect_expensive_calls fact = []
   \<and> map_sum id category (analyze_function [] fact) = Inr ''CPU''"
proof -
  have f: "is_FunctionDef load_def" by (simp add: load_def_def)
  have e: "detect_expensive_calls load_def = [''open'']" by code_simp
  have g: "is_FunctionDef fact" by (simp add: fact_def)
  have e': "detect_expensive_calls fact = []" by code_simp
  from category_io_iff_open [OF f, of "[]"] e
  have 1: "map_sum id category (analyze_function [] load_def) = Inr ''I/O''" by auto
  from category_io_iff_open [OF g, of "[]"] e'
  have 2: "map_sum id category (analyze_function [] fact) = Inr ''CPU''" by auto
  from f e 1 g e' 2 show ?thesis by (intro conjI)
qed

text \<open>
  The claimed string fails: for a function that calls \<open>open\<close> the category is \<open>I/O\<close>,
  which is not the string \<open>IO\<close>.
\<close>

theorem category_string_counterexample:
  "''open'' \<in> set (detect_expensive_calls load_def)
   \<and> map_sum id category (analyze_function [] load_def) = Inr ''I/O''
   \<and> map_sum id category (analyze_function [] load_def) \<noteq> Inr ''IO''"
proof -
  have 1: "detect_expensive_calls load_def = [''open'']" by code_simp
  have "is_FunctionDef load_def" by (simp add: load_def_def)
  from analyze_function_category [OF this, of "[]"] 1
  have 2: "map_sum id category (analyze_function [] load_def) = Inr ''I/O''" by simp
  from 1 2 show ?thesis by simp
qed

section \<open>Energy and cost\<close>

lemma round_half_even_bounds: "\<lfloor>x\<rfloor> \<le> round_half_even x \<and> round_half_even x \<le> \<lfloor>x\<rfloor> + 1"
  by (simp add: round_half_even_def Let_def)

lemma round_half_even_of_int [simp]: "round_half_even (of_int n) = n"
  by (simp add: round_half_even_def)

lemma round_half_even_mono:
  assumes "x \<le> y"
  shows "round_half_even x \<le> round_half_even y"
proof (cases "\<lfloor>x\<rfloor> = \<lfloor>y\<rfloor>")
  case True
  with assms have "x - of_int \<lfloor>x\<rfloor> \<le> y - of_int \<lfloor>y\<rfloor>" by simp
  with True show ?thesis by (auto simp: round_half_even_def Let_def)
next
  case False
  with assms have "\<lfloor>x\<rfloor> + 1 \<le> \<lfloor>y\<rfloor>" using floor_mono [of x y] by linarith
  with round_half_even_bounds [of x] round_half_even_bounds [of y] show ?thesis by linarith
qed

lemma round_half_even_ge: "of_int a \<le> x \<Longrightarrow> a \<le> round_half_even x"
  using round_half_even_mono [of "of_int a" x] by simp

lemma round_half_even_le: "x \<le> of_int b \<Longrightarrow> round_half_even x \<le> b"
  using round_half_even_mono [of x "of_int b"] by simp

lemma bitlen_bounds_rat:
  assumes "0 < p"
  shows "(2::rat) powi (bitlen p - 1) \<le> of_int p" and "of_int p < (2::rat) powi (bitlen p)"
proof -
  from assms have b: "1 \<le> bitlen p" by (simp add: bitlen_alt_def)
  from bitlen_bounds [OF assms] have 1: "2 ^ nat (bitlen p - 1) \<le> p" and 2: "p < 2 ^ nat (bitlen p)"
    by simp_all
  from 1 have "(of_int (2 ^ nat (bitlen p - 1)) :: rat) \<le> of_int p" by (simp only: of_int_le_iff)
  then show "(2::rat) powi (bitlen p - 1) \<le> of_int p"
    using b by (simp add: power_int_nonneg_exp)
  from 2 have "(of_int p :: rat) < of_int (2 ^ nat (bitlen p))" by (simp only: of_int_less_iff)
  then show "of_int p < (2::rat) powi (bitlen p)"
    using b by (simp add: power_int_nonneg_exp)
qed

lemma ilog2_bounds:
  assumes "0 < x"
  shows "2 powi (ilog2 x) \<le> x" and "x < 2 powi (ilog2 x + 1)"
proof -
  obtain p q where pq: "quotient_of x = (p, q)" by (cases "quotient_of x")
  then have q: "0 < q" and x: "x = of_int p / of_int q"
    by (simp_all add: quotient_of_denom_pos quotient_of_div)
  from assms q x have p: "0 < p" by (simp add: zero_less_divide_iff)
  let ?k = "bitlen p - bitlen q"
  have pos: "0 < (2::rat) powi n" for n by simp
  have "x < 2 powi (bitlen p) / 2 powi (bitlen q - 1)"
    unfolding x using bitlen_bounds_rat [OF p] bitlen_bounds_rat [OF q] q p pos
    by (intro frac_less) simp_all
  also have "\<dots> = 2 powi (bitlen p - (bitlen q - 1))"
    by (rule power_int_diff [symmetric]) simp
  also have "bitlen p - (bitlen q - 1) = ?k + 1" by simp
  finally have up: "x < 2 powi (?k + 1)" .
  have "2 powi (bitlen p - 1) / 2 powi (bitlen q) \<le> x"
    unfolding x using bitlen_bounds_rat [OF p] bitlen_bounds_rat [OF q] q p pos
    by (intro frac_le) simp_all
  moreover have "2 powi (bitlen p - 1) / 2 powi (bitlen q) = (2::rat) powi (bitlen p - 1 - bitlen q)"
    by (rule power_int_diff [symmetric]) simp
  moreover have "bitlen p - 1 - bitlen q = ?k - 1" by simp
  ultimately have lo: "2 powi (?k - 1) \<le> x" by simp
  have i: "ilog2 x = (if 2 powi ?k \<le> x then ?k else ?k - 1)"
    by (simp add: ilog2_def pq Let_def)
  show "2 powi (ilog2 x) \<le> x" using lo by (simp add: i)
  show "x < 2 powi (ilog2 x + 1)" using up by (auto simp: i)
qed

lemma ilog2_mono:
  assumes "0 < x" and "x \<le> y"
  shows "ilog2 x \<le> ilog2 y"
proof -
  from assms have y: "0 < y" by simp
  have "(2::rat) powi (ilog2 x) \<le> x" using ilog2_bounds(1) [OF assms(1)] .
  also have "x \<le> y" by fact
  also have "y < 2 powi (ilog2 y + 1)" using ilog2_bounds(2) [OF y] .
  finally have lt: "(2::rat) powi (ilog2 x) < 2 powi (ilog2 y + 1)" .
  have "ilog2 x < ilog2 y + 1"
  proof (rule ccontr)
    assume "\<not> ilog2 x < ilog2 y + 1"
    then have "(2::rat) powi (ilog2 y + 1) \<le> 2 powi (ilog2 x)"
      by (intro power_int_increasing) simp_all
    with lt show False by simp
  qed
  then show ?thesis by simp
qed


lemma fl_pos:
  "0 < x \<Longrightarrow> fl x = of_int (round_half_even (x / 2 powi exponent x)) * 2 powi exponent x"
  by (simp add: fl_def)

lemma fl_nonneg: "0 \<le> x \<Longrightarrow> 0 \<le> fl x"
proof (cases "x = 0")
  case True
  then show ?thesis by (simp add: fl_def)
next
  case False
  assume "0 \<le> x"
  with False have x: "0 < x" by simp
  then have "of_int 0 \<le> x / 2 powi exponent x" by simp
  then have "0 \<le> round_half_even (x / 2 powi exponent x)" by (rule round_half_even_ge)
  then show ?thesis by (simp add: fl_pos [OF x])
qed

lemma fl_upper:
  assumes "0 < x"
  shows "fl x \<le> 2 powi (exponent x + 53)"
proof -
  let ?e = "exponent x"
  have "ilog2 x + 1 \<le> ?e + 53" using assms by (simp add: exponent_def)
  then have "(2::rat) powi (ilog2 x + 1) \<le> 2 powi (?e + 53)"
    by (intro power_int_increasing) simp_all
  with ilog2_bounds(2) [OF assms] have "x \<le> 2 powi (?e + 53)" by simp
  also have "\<dots> = 2 powi 53 * 2 powi ?e" by (simp add: power_int_add)
  finally have "x / 2 powi ?e \<le> of_int (2 ^ 53)"
    by (simp add: pos_divide_le_eq)
  then have "round_half_even (x / 2 powi ?e) \<le> 2 ^ 53" by (rule round_half_even_le)
  then have "(of_int (round_half_even (x / 2 powi ?e)) :: rat) \<le> of_int (2 ^ 53)"
    by (simp only: of_int_le_iff)
  then have "of_int (round_half_even (x / 2 powi ?e)) * 2 powi ?e \<le> of_int (2 ^ 53) * (2::rat) powi ?e"
    by (intro mult_right_mono) simp_all
  also have "of_int (2 ^ 53) * (2::rat) powi ?e = 2 powi (?e + 53)" by (simp add: power_int_add)
  finally show ?thesis by (simp only: fl_pos [OF assms])
qed

lemma fl_lower:
  assumes "0 < x" and "- 1022 \<le> ilog2 x"
  shows "2 powi (exponent x + 52) \<le> fl x"
proof -
  let ?e = "exponent x"
  have e: "?e + 52 = ilog2 x" using assms by (simp add: exponent_def)
  have "(2::rat) powi 52 * 2 powi ?e = 2 powi (?e + 52)" by (simp add: power_int_add)
  also have "\<dots> \<le> x" using ilog2_bounds(1) [OF assms(1)] by (simp only: e)
  finally have "of_int (2 ^ 52) \<le> x / 2 powi ?e"
    by (simp add: pos_le_divide_eq)
  then have "2 ^ 52 \<le> round_half_even (x / 2 powi ?e)" by (rule round_half_even_ge)
  then have "(of_int (2 ^ 52) :: rat) \<le> of_int (round_half_even (x / 2 powi ?e))"
    by (simp only: of_int_le_iff)
  then have "of_int (2 ^ 52) * (2::rat) powi ?e \<le> of_int (round_half_even (x / 2 powi ?e)) * 2 powi ?e"
    by (intro mult_right_mono) simp_all
  moreover have "of_int (2 ^ 52) * (2::rat) powi ?e = 2 powi (?e + 52)" by (simp add: power_int_add)
  ultimately show ?thesis by (simp only: fl_pos [OF assms(1)])
qed

lemma fl_mono_pos:
  assumes "0 < x" and "x \<le> y"
  shows "fl x \<le> fl y"
proof -
  from assms have y: "0 < y" by simp
  have i: "ilog2 x \<le> ilog2 y" using assms by (rule ilog2_mono)
  then have le: "exponent x \<le> exponent y" using assms y by (simp add: exponent_def)
  show ?thesis
  proof (cases "exponent x = exponent y")
    case True
    have "x / 2 powi exponent y \<le> y / 2 powi exponent y"
      using assms(2) by (simp add: divide_right_mono)
    then have "round_half_even (x / 2 powi exponent y) \<le> round_half_even (y / 2 powi exponent y)"
      by (rule round_half_even_mono)
    then have "(of_int (round_half_even (x / 2 powi exponent y)) :: rat)
                 \<le> of_int (round_half_even (y / 2 powi exponent y))"
      by (simp only: of_int_le_iff)
    then have "of_int (round_half_even (x / 2 powi exponent y)) * 2 powi exponent y
                 \<le> of_int (round_half_even (y / 2 powi exponent y)) * (2::rat) powi exponent y"
      by (intro mult_right_mono) simp_all
    then show ?thesis by (simp only: fl_pos [OF assms(1)] fl_pos [OF y] True)
  next
    case False
    with le have lt: "exponent x + 1 \<le> exponent y" by simp
    then have "- 1022 \<le> ilog2 y" using assms y by (simp add: exponent_def split: if_splits)
    then have "2 powi (exponent y + 52) \<le> fl y" using y by (intro fl_lower)
    moreover have "fl x \<le> 2 powi (exponent x + 53)" using assms(1) by (rule fl_upper)
    moreover from lt have "(2::rat) powi (exponent x + 53) \<le> 2 powi (exponent y + 52)"
      by (intro power_int_increasing) simp_all
    ultimately show ?thesis by linarith
  qed
qed

lemma fl_mono: "0 \<le> x \<Longrightarrow> x \<le> y \<Longrightarrow> fl x \<le> fl y"
proof (cases "x = 0")
  case True
  assume "0 \<le> x" "x \<le> y"
  with True have "0 \<le> fl y" by (intro fl_nonneg) simp
  with True show ?thesis by (simp add: fl_def)
next
  case False
  assume "0 \<le> x" "x \<le> y"
  with False show ?thesis by (intro fl_mono_pos) simp_all
qed

lemma round_half_even_nonneg: "0 \<le> x \<Longrightarrow> 0 \<le> round_half_even x"
  using round_half_even_ge [of 0 x] by simp

lemma py_round_nonneg: "0 \<le> x \<Longrightarrow> 0 \<le> py_round x n"
  unfolding py_round_def by (intro fl_nonneg divide_nonneg_nonneg) (simp_all add: round_half_even_nonneg)

lemma py_round_mono:
  assumes "0 \<le> x" and "x \<le> y"
  shows "py_round x n \<le> py_round y n"
proof -
  have "x * 10 ^ n \<le> y * 10 ^ n" using assms(2) by (simp add: mult_right_mono)
  then have "round_half_even (x * 10 ^ n) \<le> round_half_even (y * 10 ^ n)"
    by (rule round_half_even_mono)
  then have "(of_int (round_half_even (x * 10 ^ n)) :: rat) / 10 ^ n
               \<le> of_int (round_half_even (y * 10 ^ n)) / 10 ^ n"
    by (simp add: divide_right_mono)
  moreover have "(0::rat) \<le> of_int (round_half_even (x * 10 ^ n)) / 10 ^ n"
    using assms(1) by (intro divide_nonneg_nonneg) (simp_all add: round_half_even_nonneg)
  ultimately show ?thesis unfolding py_round_def by (intro fl_mono)
qed

lemma float_mul_nonneg: "0 \<le> a \<Longrightarrow> 0 \<le> c \<Longrightarrow> 0 \<le> float_mul a c"
  unfolding float_mul_def by (intro fl_nonneg) simp

lemma float_mul_mono:
  "0 \<le> a \<Longrightarrow> a \<le> b \<Longrightarrow> 0 \<le> c \<Longrightarrow> float_mul a c \<le> float_mul b c"
  unfolding float_mul_def by (intro fl_mono) (simp_all add: mult_right_mono)

lemma float_of_int_nonneg: "0 \<le> n \<Longrightarrow> 0 \<le> float_of_int n"
  unfolding float_of_int_def by (intro fl_nonneg) simp

lemma float_of_int_mono: "0 \<le> m \<Longrightarrow> m \<le> n \<Longrightarrow> float_of_int m \<le> float_of_int n"
  unfolding float_of_int_def by (intro fl_mono) simp_all

lemma constants_nonneg:
  "0 \<le> JOULES_PER_SCORE_POINT" "0 \<le> ELECTRICITY_RATE_PER_KWH"
  unfolding JOULES_PER_SCORE_POINT_def ELECTRICITY_RATE_PER_KWH_def
  by (intro fl_nonneg, simp)+

lemma energy_of_mono:
  assumes "0 \<le> s" and "s \<le> s'"
  shows "joules_per_run (energy_of s) \<le> joules_per_run (energy_of s')"
    and "cost_per_run (energy_of s) \<le> cost_per_run (energy_of s')"
    and "cost_per_1000_runs (energy_of s) \<le> cost_per_1000_runs (energy_of s')"
    and "cost_per_1m_runs (energy_of s) \<le> cost_per_1m_runs (energy_of s')"
proof -
  let ?j = "\<lambda>s. py_round (float_mul (float_of_int s) JOULES_PER_SCORE_POINT) 4"
  let ?c = "\<lambda>s. float_mul (fl (?j s / float_of_int 3600000)) ELECTRICITY_RATE_PER_KWH"
  from assms have s': "0 \<le> s'" by simp
  have m0: "0 \<le> float_mul (float_of_int t) JOULES_PER_SCORE_POINT" if "0 \<le> t" for t
    using that by (intro float_mul_nonneg float_of_int_nonneg constants_nonneg)
  have j0: "0 \<le> ?j t" if "0 \<le> t" for t
    using that by (intro py_round_nonneg m0)
  have j: "?j s \<le> ?j s'"
    using assms by (intro py_round_mono float_mul_mono float_of_int_mono float_of_int_nonneg
        constants_nonneg m0)
  have q0: "0 \<le> fl (?j t / float_of_int 3600000)" if "0 \<le> t" for t
    using that j0 by (intro fl_nonneg) (simp add: float_of_int_3600000)
  have q: "fl (?j s / float_of_int 3600000) \<le> fl (?j s' / float_of_int 3600000)"
    using j j0 [OF assms(1)] by (intro fl_mono) (simp_all add: float_of_int_3600000 divide_right_mono)
  have c0: "0 \<le> ?c t" if "0 \<le> t" for t
    using that by (intro float_mul_nonneg q0 constants_nonneg)
  have c: "?c s \<le> ?c s'"
    using assms by (intro float_mul_mono q q0 constants_nonneg)
  have k0: "0 \<le> float_mul (?c t) (float_of_int n)" if "0 \<le> t" "0 \<le> n" for t n
    using that by (intro float_mul_nonneg c0 float_of_int_nonneg)
  have k: "float_mul (?c s) (float_of_int n) \<le> float_mul (?c s') (float_of_int n)" if "0 \<le> n" for n
    using that assms by (intro float_mul_mono c c0 float_of_int_nonneg)
  show "joules_per_run (energy_of s) \<le> joules_per_run (energy_of s')"
    using j by (simp add: energy_of_def Let_def)
  show "cost_per_run (energy_of s) \<le> cost_per_run (energy_of s')"
    using c by (simp add: energy_of_def Let_def)
  have "py_round (float_mul (?c s) (float_of_int 1000)) 6
          \<le> py_round (float_mul (?c s') (float_of_int 1000)) 6"
    using assms by (intro py_round_mono k k0) simp_all
  then show "cost_per_1000_runs (energy_of s) \<le> cost_per_1000_runs (energy_of s')"
    by (simp add: energy_of_def Let_def)
  have "py_round (float_mul (?c s) (float_of_int 1000000)) 4
          \<le> py_round (float_mul (?c s') (float_of_int 1000000)) 4"
    using assms by (intro py_round_mono k k0) simp_all
  then show "cost_per_1m_runs (energy_of s) \<le> cost_per_1m_runs (energy_of s')"
    by (simp add: energy_of_def Let_def)
qed

lemma ELECTRICITY_RATE_PER_KWH_eq: "ELECTRICITY_RATE_PER_KWH = 8"
  by code_simp

text \<open>
  Claim C10. For every score the estimation returns figures and raises nothing:
  \<open>estimated_joules_per_run\<close> is \<open>round(score * 0.05, 4)\<close>, the cost per run is that
  value divided by 3600000 and multiplied by 8.0, \<open>estimated_cost_per_1000_runs\<close> is
  the cost per run times 1000 rounded to 6 places, and \<open>estimated_cost_per_1m_runs\<close>
  is the cost per run times 1000000 rounded to 4 places, each operation in binary64
  arithmetic. For scores between 0 and 100 each of the four quantities does not decrease
  when the score grows. The record of an analysed function carries the figures of its
  score, which lies between 0 and 100.
\<close>

theorem energy_estimate:
  "(\<exists>j q c. estimate_energy s =
                Inr \<lparr>joules_per_run = j, cost_per_run = c,
                     cost_per_1000_runs = py_round (float_mul c (float_of_int 1000)) 6,
                     cost_per_1m_runs = py_round (float_mul c (float_of_int 1000000)) 4\<rparr>
            \<and> j = py_round (float_mul (float_of_int s) JOULES_PER_SCORE_POINT) 4
            \<and> float_truediv j (float_of_int 3600000) = Inr q
            \<and> c = float_mul q ELECTRICITY_RATE_PER_KWH)
   \<and> JOULES_PER_SCORE_POINT = fl (5 / 100) \<and> ELECTRICITY_RATE_PER_KWH = 8
   \<and> (\<forall>a b en en'. 0 \<le> a \<and> a \<le> b \<and> b \<le> 100
          \<and> estimate_energy a = Inr en \<and> estimate_energy b = Inr en'
        \<longrightarrow> joules_per_run en \<le> joules_per_run en' \<and> cost_per_run en \<le> cost_per_run en'
            \<and> cost_per_1000_runs en \<le> cost_per_1000_runs en'
            \<and> cost_per_1m_runs en \<le> cost_per_1m_runs en')
   \<and> (is_FunctionDef func \<longrightarrow>
        (\<exists>h en. analyze_function code_lines func = Inr h \<and> 0 \<le> score h \<and> score h \<le> 100
           \<and> estimate_energy (score h) = Inr en
           \<and> estimated_joules_per_run h = joules_per_run en
           \<and> estimated_cost_per_1000_runs h = cost_per_1000_runs en
           \<and> estimated_cost_per_1m_runs h = cost_per_1m_runs en))"
proof -
  have 1: "\<exists>j q c. estimate_energy s =
                Inr \<lparr>joules_per_run = j, cost_per_run = c,
                     cost_per_1000_runs = py_round (float_mul c (float_of_int 1000)) 6,
                     cost_per_1m_runs = py_round (float_mul c (float_of_int 1000000)) 4\<rparr>
            \<and> j = py_round (float_mul (float_of_int s) JOULES_PER_SCORE_POINT) 4
            \<and> float_truediv j (float_of_int 3600000) = Inr q
            \<and> c = float_mul q ELECTRICITY_RATE_PER_KWH"
    by (simp add: estimate_energy_def float_truediv_def float_of_int_3600000 Let_def)
  have 2: "JOULES_PER_SCORE_POINT = fl (5 / 100)" by (rule JOULES_PER_SCORE_POINT_def)
  have 3: "ELECTRICITY_RATE_PER_KWH = 8" by (rule ELECTRICITY_RATE_PER_KWH_eq)
  have 4: "\<forall>a b en en'. 0 \<le> a \<and> a \<le> b \<and> b \<le> 100
          \<and> estimate_energy a = Inr en \<and> estimate_energy b = Inr en'
        \<longrightarrow> joules_per_run en \<le> joules_per_run en' \<and> cost_per_run en \<le> cost_per_run en'
            \<and> cost_per_1000_runs en \<le> cost_per_1000_runs en'
            \<and> cost_per_1m_runs en \<le> cost_per_1m_runs en'"
    by (auto simp: estimate_energy_Inr energy_of_mono)
  have 5: "is_FunctionDef func \<longrightarrow>
        (\<exists>h en. analyze_function code_lines func = Inr h \<and> 0 \<le> score h \<and> score h \<le> 100
           \<and> estimate_energy (score h) = Inr en
           \<and> estimated_joules_per_run h = joules_per_run en
           \<and> estimated_cost_per_1000_runs h = cost_per_1000_runs en
           \<and> estimated_cost_per_1m_runs h = cost_per_1m_runs en)"
  proof
    assume "is_FunctionDef func"
    then obtain nm lineno end_lineno cs where f: "func = FunctionDef nm lineno end_lineno cs"
      by (cases func) simp_all
    have nn: "0 \<le> get_max_loop_depth func" by (rule get_max_loop_depth_nonneg)
    show "\<exists>h en. analyze_function code_lines func = Inr h \<and> 0 \<le> score h \<and> score h \<le> 100
           \<and> estimate_energy (score h) = Inr en
           \<and> estimated_joules_per_run h = joules_per_run en
           \<and> estimated_cost_per_1000_runs h = cost_per_1000_runs en
           \<and> estimated_cost_per_1m_runs h = cost_per_1m_runs en"
      unfolding f analyze_function_FunctionDef Let_def
      using nn [unfolded f]
      by (simp add: estimate_energy_Inr compute_score_eq)
  qed
  from 1 2 3 4 5 show ?thesis by (intro conjI)
qed

theorem energy_estimate_witness:
  "estimate_energy 0 =
     Inr \<lparr>joules_per_run = 0, cost_per_run = 0, cost_per_1000_runs = 0, cost_per_1m_runs = 0\<rparr>
   \<and> map_sum id joules_per_run (estimate_energy 100) = Inr 5
   \<and> map_sum id cost_per_1000_runs (estimate_energy 100) = Inr (fl (11111 / 1000000))
   \<and> map_sum id cost_per_1m_runs (estimate_energy 100) = Inr (fl (111111 / 10000))
   \<and> (0::rat) \<le> fl (11111 / 1000000) \<and> (0::rat) \<le> fl (111111 / 10000)
   \<and> is_FunctionDef noop
   \<and> map_sum id estimated_joules_per_run (analyze_function [] noop) = Inr 0"
proof -
  have z: "estimate_energy 0 =
     Inr \<lparr>joules_per_run = 0, cost_per_run = 0, cost_per_1000_runs = 0, cost_per_1m_runs = 0\<rparr>"
    by code_simp
  have j: "map_sum id joules_per_run (estimate_energy 100) = Inr 5" by code_simp
  have k: "map_sum id cost_per_1000_runs (estimate_energy 100) = Inr (fl (11111 / 1000000))"
    by code_simp
  have m: "map_sum id cost_per_1m_runs (estimate_energy 100) = Inr (fl (111111 / 10000))"
    by code_simp
  obtain en where en: "estimate_energy 100 = Inr en"
    using energy_estimate [of 100] by blast
  from energy_estimate [of 0]
  have mono: "0 \<le> a \<Longrightarrow> a \<le> b \<Longrightarrow> b \<le> 100
                \<Longrightarrow> estimate_energy a = Inr e1 \<Longrightarrow> estimate_energy b = Inr e2
                \<Longrightarrow> cost_per_1000_runs e1 \<le> cost_per_1000_runs e2
                    \<and> cost_per_1m_runs e1 \<le> cost_per_1m_runs e2" for a b e1 e2
    by blast
  have "cost_per_1000_runs \<lparr>joules_per_run = 0, cost_per_run = 0, cost_per_1000_runs = 0,
          cost_per_1m_runs = (0::rat)\<rparr> \<le> cost_per_1000_runs en
        \<and> cost_per_1m_runs \<lparr>joules_per_run = 0, cost_per_run = 0, cost_per_1000_runs = 0,
          cost_per_1m_runs = (0::rat)\<rparr> \<le> cost_per_1m_runs en"
    by (rule mono [of 0 100, OF _ _ _ z en]) simp_all
  with k m en have le: "(0::rat) \<le> fl (11111 / 1000000) \<and> (0::rat) \<le> fl (111111 / 10000)"
    by simp
  have f: "is_FunctionDef noop" by (simp add: noop_def)
  have s: "compute_score (get_max_loop_depth noop) False (detect_expensive_calls noop)
             (detect_loop_issues noop) = 0"
    by code_simp
  have r: "is_recursive noop = Inr False" by code_simp
  from energy_estimate [of 0 noop "[]"] f obtain h en0 where
    h: "analyze_function [] noop = Inr h" "estimate_energy (score h) = Inr en0"
       "estimated_joules_per_run h = joules_per_run en0"
    by blast
  have "score h = 0"
    using h(1) s r unfolding noop_def
    by (auto simp: analyze_function_FunctionDef is_recursive_FunctionDef Let_def)
  with h(2) z have "en0 = \<lparr>joules_per_run = 0, cost_per_run = 0, cost_per_1000_runs = 0,
          cost_per_1m_runs = 0\<rparr>"
    by simp
  then have "joules_per_run en0 = 0" by simp
  with h(1,3) have n: "map_sum id estimated_joules_per_run (analyze_function [] noop) = Inr 0"
    by simp
  from le have le1: "(0::rat) \<le> fl (11111 / 1000000)" and le2: "(0::rat) \<le> fl (111111 / 10000)"
    by (rule conjunct1, rule conjunct2)
  from z j k m le1 le2 f n show ?thesis by (intro conjI)
qed

end
